theory Spec2Isabelle
  imports Main
begin

section \<open>Python strings\<close>

text \<open>
  A \<^verbatim>\<open>str\<close> is modelled as a \<open>string\<close>: its characters are the code points below 256,
  and the classifications below are Python's on that range.
\<close>

text \<open>The code point of a character, and the characters of a range \<^verbatim>\<open>a-z\<close>.\<close>

definition code_point :: "char \<Rightarrow> nat" where
  "code_point c = of_char c"

definition in_range :: "char \<Rightarrow> char \<Rightarrow> char \<Rightarrow> bool" where
  "in_range lo hi c = (code_point lo \<le> code_point c \<and> code_point c \<le> code_point hi)"

text \<open>The characters \<^verbatim>\<open>str.strip()\<close> removes from both ends.\<close>

definition is_space :: "char \<Rightarrow> bool" where
  "is_space c = (in_range (CHR 0x09) (CHR 0x0D) c \<or> in_range (CHR 0x1C) (CHR 0x20) c
                 \<or> c = CHR 0x85 \<or> c = CHR 0xA0)"

definition strip :: "string \<Rightarrow> string" where
  "strip s = rev (dropWhile is_space (rev (dropWhile is_space s)))"

text \<open>The word characters of a \<^verbatim>\<open>str\<close> pattern: the alphanumerics and the underscore.\<close>

definition is_alnum_ascii :: "char \<Rightarrow> bool" where
  "is_alnum_ascii c = (in_range CHR ''A'' CHR ''Z'' c \<or> in_range CHR ''a'' CHR ''z'' c
                       \<or> in_range CHR ''0'' CHR ''9'' c)"

definition is_word :: "char \<Rightarrow> bool" where
  "is_word c = (is_alnum_ascii c \<or> c = CHR ''_''
                \<or> c \<in> set [CHR 0xAA, CHR 0xB2, CHR 0xB3, CHR 0xB5, CHR 0xB9, CHR 0xBA,
                            CHR 0xBC, CHR 0xBD, CHR 0xBE]
                \<or> (in_range (CHR 0xC0) (CHR 0xFF) c \<and> c \<noteq> CHR 0xD7 \<and> c \<noteq> CHR 0xF7))"



section \<open>The scraper status and its log (app.py)\<close>

text \<open>
  The module-level dictionary \<^verbatim>\<open>scraper_status\<close> of app.py is a record with the
  dictionary's eight keys. A \<^verbatim>\<open>datetime\<close> value is a number (a reading of the wall
  clock); Python's \<^verbatim>\<open>None\<close> is \<open>None\<close>.
\<close>

type_synonym timestamp = nat

record scraper_status =
  running :: bool
  current_state :: "string option"
  progress :: nat
  total_states :: nat
  completed_states :: "string list"
  failed_states :: "string list"
  start_time :: "timestamp option"
  logs :: "string list"

text \<open>
  What the functions of app.py touch besides the dictionary: the wall clock (each
  \<^verbatim>\<open>datetime.now()\<close> is one more reading), the lines handed to \<^verbatim>\<open>logger.info\<close>, and the
  background threads started so far, each with the argument it was given.
\<close>

record world =
  status :: scraper_status
  clock_reads :: nat
  logger_out :: "string list"
  threads :: "string list option list"

text \<open>
  An exception, as far as the handlers of app.py tell exceptions apart: whether it is an
  instance of \<^verbatim>\<open>Exception\<close> (a \<^verbatim>\<open>SystemExit\<close> or a \<^verbatim>\<open>KeyboardInterrupt\<close> is not: the clauses
  \<^verbatim>\<open>except Exception\<close> let it pass), and what \<^verbatim>\<open>str(e)\<close> gives, the text of the exception or,
  when its \<^verbatim>\<open>__str__\<close> raises, the exception raised there.
\<close>

datatype exn = Exn bool string | Unprintable bool exn

fun is_exception :: "exn \<Rightarrow> bool" where
  "is_exception (Exn b msg) = b"
| "is_exception (Unprintable b raised) = b"

fun str_exn :: "exn \<Rightarrow> exn + string" where
  "str_exn (Exn b msg) = Inr msg"
| "str_exn (Unprintable b raised) = Inl raised"

text \<open>
  \<^verbatim>\<open>processor.process_complete_state(state_name)\<close> comes from a module that is not part of
  the sources: it returns a value whose truth the caller tests, or raises. So does the
  processor: reading its \<^verbatim>\<open>states_list\<close> gives the list of the regions, or raises.
\<close>

datatype outcome = Returned bool | Raised exn

record processor =
  states_list :: "exn + string list"

text \<open>
  The surroundings of a run, as parameters: the readings of the clock and their
  \<^verbatim>\<open>strftime\<close> rendering, what \<^verbatim>\<open>SequentialStateProcessor()\<close> does (raises, or gives a
  processor), what processing the \<open>i\<close>-th region of the run does, and how many stop
  requests the web thread serves while the background thread is blocked in the
  constructor and in the \<open>i\<close>-th call of \<^verbatim>\<open>process_complete_state\<close>. The calls of
  \<^verbatim>\<open>add_log\<close> are taken not to raise: they format the time, append to a list and hand the
  message to \<^verbatim>\<open>logging\<close>, which keeps the errors of its handlers to itself.
\<close>

record env =
  clock :: "nat \<Rightarrow> timestamp"
  strftime :: "timestamp \<Rightarrow> string"
  new_processor :: "exn + processor"
  process_complete_state :: "nat \<Rightarrow> string \<Rightarrow> outcome"
  stops_during_init :: nat
  stops_during :: "nat \<Rightarrow> nat"

datatype response = Message string | Error nat string

subsection \<open>Rendering numbers in messages\<close>

definition digit_char :: "nat \<Rightarrow> char" where
  "digit_char d =
     (if d = 0 then CHR ''0'' else if d = 1 then CHR ''1'' else if d = 2 then CHR ''2''
      else if d = 3 then CHR ''3'' else if d = 4 then CHR ''4'' else if d = 5 then CHR ''5''
      else if d = 6 then CHR ''6'' else if d = 7 then CHR ''7'' else if d = 8 then CHR ''8''
      else CHR ''9'')"

fun str_nat :: "nat \<Rightarrow> string" where
  "str_nat n = (if n < 10 then [digit_char n] else str_nat (n div 10) @ [digit_char (n mod 10)])"

declare str_nat.simps [simp del]

text \<open>
  The pictographs that open the log messages lie outside the range of \<open>char\<close>; they are
  written as their UTF-8 bytes.
\<close>

definition emoji_rocket :: string where
  "emoji_rocket = [CHR 0xF0, CHR 0x9F, CHR 0x9A, CHR 0x80]"

definition emoji_clipboard :: string where
  "emoji_clipboard = [CHR 0xF0, CHR 0x9F, CHR 0x93, CHR 0x8B]"

definition emoji_building :: string where
  "emoji_building = [CHR 0xF0, CHR 0x9F, CHR 0x8F, CHR 0x9B, CHR 0xEF, CHR 0xB8, CHR 0x8F]"

definition emoji_check :: string where
  "emoji_check = [CHR 0xE2, CHR 0x9C, CHR 0x85]"

definition emoji_cross :: string where
  "emoji_cross = [CHR 0xE2, CHR 0x9D, CHR 0x8C]"

definition emoji_target :: string where
  "emoji_target = [CHR 0xF0, CHR 0x9F, CHR 0x8E, CHR 0xAF]"

definition emoji_stop :: string where
  "emoji_stop = [CHR 0xF0, CHR 0x9F, CHR 0x9B, CHR 0x91]"

subsection \<open>add_log\<close>

text \<open>
  \<^verbatim>\<open>logs[-100:]\<close> of a list longer than 100 is the list without its first
  \<open>length - 100\<close> entries.
\<close>

definition add_log :: "env \<Rightarrow> string \<Rightarrow> world \<Rightarrow> world" where
  "add_log e message w =
     (let timestamp = strftime e (clock e (clock_reads w));
          log_entry = ''['' @ timestamp @ ''] '' @ message;
          appended = logs (status w) @ [log_entry];
          kept = (if length appended > 100 then drop (length appended - 100) appended
                  else appended)
      in w\<lparr>status := (status w)\<lparr>logs := kept\<rparr>,
            clock_reads := Suc (clock_reads w),
            logger_out := logger_out w @ [message]\<rparr>)"

subsection \<open>The web layer's start and stop\<close>

text \<open>
  \<^verbatim>\<open>start_scraper\<close> gets what \<^verbatim>\<open>data.get('states', None)\<close> gives; the thread it starts is
  recorded with that argument.
\<close>

definition start_scraper :: "string list option \<Rightarrow> world \<Rightarrow> response \<times> world" where
  "start_scraper target_states w =
     (if running (status w) then (Error 400 ''Scraper is already running'', w)
      else
        let reset = (status w)\<lparr>running := True, current_state := None, progress := 0,
                                 total_states := 0, completed_states := [],
                                 failed_states := [], logs := []\<rparr>
        in (Message ''Scraper started successfully'',
            w\<lparr>status := reset, threads := threads w @ [target_states]\<rparr>))"

definition stop_scraper :: "env \<Rightarrow> world \<Rightarrow> response \<times> world" where
  "stop_scraper e w =
     (Message ''Scraper stop requested'',
      add_log e (emoji_stop @ '' Scraper stop requested'')
        (w\<lparr>status := (status w)\<lparr>running := False\<rparr>\<rparr>))"

text \<open>\<open>n\<close> stop requests served one after the other.\<close>

definition stop_requests :: "env \<Rightarrow> nat \<Rightarrow> world \<Rightarrow> world" where
  "stop_requests e n w = ((\<lambda>v. snd (stop_scraper e v)) ^^ n) w"

subsection \<open>The background run\<close>

text \<open>
  One pass of the loop body of \<^verbatim>\<open>run_scraper_task\<close>, after the stop check: the world
  where the pass ends, and the exception that leaves it, if one does. The inner handler
  catches an \<^verbatim>\<open>Exception\<close> only; it files the region as failed and then renders the
  exception for the log line, which may raise in turn.
\<close>

definition visit_state :: "env \<Rightarrow> nat \<Rightarrow> string \<Rightarrow> world \<Rightarrow> world \<times> exn option" where
  "visit_state e i state_name w =
     (let w1 = w\<lparr>status := (status w)\<lparr>current_state := Some state_name, progress := i\<rparr>\<rparr>;
          w2 = add_log e (emoji_building @ '' Processing state '' @ str_nat (i + 1) @ ''/''
                 @ str_nat (total_states (status w1)) @ '': '' @ state_name) w1;
          w3 = stop_requests e (stops_during e i) w2
      in case process_complete_state e i state_name of
           Returned success \<Rightarrow>
             if success then
               (add_log e (emoji_check @ '' Completed '' @ state_name)
                  (w3\<lparr>status := (status w3)\<lparr>completed_states :=
                         completed_states (status w3) @ [state_name]\<rparr>\<rparr>),
                None)
             else
               (add_log e (emoji_cross @ '' Failed '' @ state_name)
                  (w3\<lparr>status := (status w3)\<lparr>failed_states :=
                         failed_states (status w3) @ [state_name]\<rparr>\<rparr>),
                None)
         | Raised x \<Rightarrow>
             if is_exception x then
               let w4 = w3\<lparr>status := (status w3)\<lparr>failed_states :=
                           failed_states (status w3) @ [state_name]\<rparr>\<rparr>
               in case str_exn x of
                    Inr msg \<Rightarrow>
                      (add_log e (emoji_cross @ '' Error processing '' @ state_name @ '': ''
                                  @ msg) w4,
                       None)
                  | Inl raised \<Rightarrow> (w4, Some raised)
             else (w3, Some x))"

text \<open>
  The \<^verbatim>\<open>for i, state_name in enumerate(...)\<close> loop: the \<^verbatim>\<open>break\<close> leaves the remaining
  regions unvisited, and so does an exception that leaves a pass.
\<close>

fun process_states :: "env \<Rightarrow> nat \<Rightarrow> string list \<Rightarrow> world \<Rightarrow> world \<times> exn option" where
  "process_states e i [] w = (w, None)"
| "process_states e i (state_name # rest) w =
     (if \<not> running (status w) then (w, None)
      else case visit_state e i state_name w of
             (w', None) \<Rightarrow> process_states e (Suc i) rest w'
           | (w', Some x) \<Rightarrow> (w', Some x))"

text \<open>
  The body of the \<^verbatim>\<open>try\<close> block: the world where the block ends, and the exception that
  ended it, if one did. \<^verbatim>\<open>if target_states\<close> is false for \<^verbatim>\<open>None\<close> and for the empty list,
  and so is the left operand of \<^verbatim>\<open>target_states or processor.states_list\<close>: the list of the
  processor is read only then. The summary line is written when the loop ends without an
  exception.
\<close>

definition run_body :: "env \<Rightarrow> string list option \<Rightarrow> world \<Rightarrow> world \<times> exn option" where
  "run_body e target_states w =
     (let w1 = w\<lparr>status := (status w)\<lparr>running := True,
                      start_time := Some (clock e (clock_reads w))\<rparr>,
                  clock_reads := Suc (clock_reads w)\<rparr>;
          w2 = add_log e (emoji_rocket @ '' Starting school data scraper...'') w1;
          w3 = stop_requests e (stops_during_init e) w2
      in case new_processor e of
           Inl x \<Rightarrow> (w3, Some x)
         | Inr processor \<Rightarrow>
             let selected = (case target_states of None \<Rightarrow> [] | Some ts \<Rightarrow> ts);
                 regions = (if selected \<noteq> [] then Inr selected else states_list processor)
             in case regions of
                  Inl x \<Rightarrow> (w3, Some x)
                | Inr rs \<Rightarrow>
                    let w4 = (if selected \<noteq> [] then
                                add_log e (emoji_clipboard @ '' Processing ''
                                    @ str_nat (length rs) @ '' selected states'')
                                  (w3\<lparr>status := (status w3)\<lparr>total_states := length rs\<rparr>\<rparr>)
                              else
                                add_log e (emoji_clipboard @ '' Processing all ''
                                    @ str_nat (length rs) @ '' states'')
                                  (w3\<lparr>status := (status w3)\<lparr>total_states := length rs\<rparr>\<rparr>))
                    in case process_states e 0 rs w4 of
                         (w5, Some x) \<Rightarrow> (w5, Some x)
                       | (w5, None) \<Rightarrow>
                           let completed = length (completed_states (status w5));
                               failed = length (failed_states (status w5))
                           in (add_log e (emoji_target @ '' Scraping completed: ''
                                          @ str_nat completed @ '' successful, ''
                                          @ str_nat failed @ '' failed'') w5,
                               None))"

text \<open>
  \<^verbatim>\<open>run_scraper_task\<close>: the world the task leaves, and the exception that leaves the task,
  if one does. The outer handler catches an \<^verbatim>\<open>Exception\<close> only and logs its text, whose
  rendering may raise in turn; the \<^verbatim>\<open>finally\<close> clause runs on every path, and what was
  not caught goes on to the thread that runs the task.
\<close>

definition run_scraper_task :: "env \<Rightarrow> string list option \<Rightarrow> world \<Rightarrow> world \<times> exn option" where
  "run_scraper_task e target_states w =
     (let (w1, exc) = run_body e target_states w;
          (w2, leaving) =
             (case exc of
                None \<Rightarrow> (w1, None)
              | Some x \<Rightarrow>
                  if is_exception x then
                    (case str_exn x of
                       Inr msg \<Rightarrow> (add_log e (emoji_cross @ '' Scraper error: '' @ msg) w1, None)
                     | Inl raised \<Rightarrow> (w1, Some raised))
                  else (w1, Some x))
      in (w2\<lparr>status := (status w2)\<lparr>running := False, current_state := None\<rparr>\<rparr>, leaving))"

subsection \<open>Notions used to state the properties of app.py\<close>

text \<open>The log line \<^verbatim>\<open>add_log\<close> builds from the \<open>k\<close>-th reading of the clock.\<close>

definition log_line :: "env \<Rightarrow> nat \<Rightarrow> string \<Rightarrow> string" where
  "log_line e k message = ''['' @ strftime e (clock e k) @ ''] '' @ message"

text \<open>The last \<open>n\<close> entries of a list (the whole list when it has fewer).\<close>

definition last_n :: "nat \<Rightarrow> 'a list \<Rightarrow> 'a list" where
  "last_n n xs = drop (length xs - n) xs"

text \<open>The lines of a sequence of messages logged from the \<open>k\<close>-th reading on.\<close>

primrec log_lines :: "env \<Rightarrow> nat \<Rightarrow> string list \<Rightarrow> string list" where
  "log_lines e k [] = []"
| "log_lines e k (m # ms) = log_line e k m # log_lines e (Suc k) ms"

text \<open>A sequence of calls of \<^verbatim>\<open>add_log\<close>, one per message.\<close>

primrec add_logs :: "env \<Rightarrow> string list \<Rightarrow> world \<Rightarrow> world" where
  "add_logs e [] w = w"
| "add_logs e (m # ms) w = add_logs e ms (add_log e m w)"

text \<open>
  The regions of a run, numbered from \<open>i\<close>, whose processing has an outcome with the
  property \<open>p\<close>.
\<close>

primrec select_states :: "(outcome \<Rightarrow> bool) \<Rightarrow> env \<Rightarrow> nat \<Rightarrow> string list \<Rightarrow> string list" where
  "select_states p e i [] = []"
| "select_states p e i (r # rs) =
     (if p (process_complete_state e i r) then [r] else []) @ select_states p e (Suc i) rs"

text \<open>
  An outcome is a failure the inner handler deals with when a false value is returned or
  an \<^verbatim>\<open>Exception\<close> is raised. The exception that leaves the pass, if one does: the raised
  one when it is no \<^verbatim>\<open>Exception\<close>, and otherwise what rendering it raises.
\<close>

definition handled_failure :: "outcome \<Rightarrow> bool" where
  "handled_failure out = (case out of Returned success \<Rightarrow> \<not> success | Raised x \<Rightarrow> is_exception x)"

definition escaping :: "outcome \<Rightarrow> exn option" where
  "escaping out =
     (case out of
        Returned success \<Rightarrow> None
      | Raised x \<Rightarrow>
          if is_exception x then (case str_exn x of Inr msg \<Rightarrow> None | Inl raised \<Rightarrow> Some raised)
          else Some x)"

text \<open>No exception leaves the pass of any of the regions, numbered from \<open>i\<close>.\<close>

primrec calm_run :: "env \<Rightarrow> nat \<Rightarrow> string list \<Rightarrow> bool" where
  "calm_run e i [] = True"
| "calm_run e i (r # rs) =
     (escaping (process_complete_state e i r) = None \<and> calm_run e (Suc i) rs)"

text \<open>
  The regions a run goes through: the selected ones when there are any, else the list of
  the processor, when reading it does not raise.
\<close>

definition regions_of :: "string list option \<Rightarrow> processor \<Rightarrow> string list \<Rightarrow> bool" where
  "regions_of target_states p rs =
     (case target_states of
        Some (t # ts) \<Rightarrow> rs = t # ts
      | _ \<Rightarrow> states_list p = Inr rs)"

text \<open>Whether a string holds another as a contiguous part.\<close>

primrec contains :: "string \<Rightarrow> string \<Rightarrow> bool" where
  "contains [] needle = (needle = [])"
| "contains (c # cs) needle = (take (length needle) (c # cs) = needle \<or> contains cs needle)"

subsection \<open>Concrete surroundings and worlds\<close>

definition demo_states :: "string list" where
  "demo_states = [''Goa'', ''Kerala'', ''Sikkim'']"

text \<open>
  A processor that succeeds on Goa, raises an \<^verbatim>\<open>Exception\<close> on Kerala and reports failure
  on Sikkim; no stop request arrives.
\<close>

definition demo_env :: env where
  "demo_env =
     \<lparr>clock = (\<lambda>k. 1000 + k), strftime = (\<lambda>t. if t = 1000 then ''noon'' else ''later''),
      new_processor = Inr \<lparr>states_list = Inr [''Goa'', ''Kerala'', ''Sikkim'']\<rparr>,
      process_complete_state =
        (\<lambda>i s. if s = ''Kerala'' then Raised (Exn True ''timeout'')
               else Returned (s \<noteq> ''Sikkim'')),
      stops_during_init = 0, stops_during = (\<lambda>i. 0)\<rparr>"

text \<open>The same, with one stop request served while the second region is processed.\<close>

definition stopping_env :: env where
  "stopping_env = demo_env\<lparr>stops_during := (\<lambda>i. if i = 1 then 1 else 0)\<rparr>"

text \<open>The same, with a constructor that raises an \<^verbatim>\<open>Exception\<close>.\<close>

definition broken_env :: env where
  "broken_env = demo_env\<lparr>new_processor := Inl (Exn True ''no browser'')\<rparr>"

text \<open>The same, with a \<^verbatim>\<open>SystemExit\<close> raised while Kerala is processed.\<close>

definition exit_env :: env where
  "exit_env =
     demo_env\<lparr>process_complete_state :=
       (\<lambda>i s. if s = ''Kerala'' then Raised (Exn False ''SystemExit'')
              else Returned (s \<noteq> ''Sikkim''))\<rparr>"

text \<open>
  The same, with an \<^verbatim>\<open>Exception\<close> raised while Kerala is processed whose rendering raises
  an \<^verbatim>\<open>Exception\<close> with the text \<^verbatim>\<open>bad repr\<close>.
\<close>

definition unprintable_env :: env where
  "unprintable_env =
     demo_env\<lparr>process_complete_state :=
       (\<lambda>i s. if s = ''Kerala'' then Raised (Unprintable True (Exn True ''bad repr''))
              else Returned (s \<noteq> ''Sikkim''))\<rparr>"

text \<open>The dictionary as the module creates it.\<close>

definition idle_world :: world where
  "idle_world =
     \<lparr>status = \<lparr>running = False, current_state = None, progress = 0, total_states = 0,
                completed_states = [], failed_states = [], start_time = None, logs = []\<rparr>,
      clock_reads = 0, logger_out = [], threads = []\<rparr>"

definition full_world :: world where
  "full_world = idle_world\<lparr>status := (status idle_world)\<lparr>logs := replicate 100 ''old''\<rparr>\<rparr>"

definition busy_world :: world where
  "busy_world = idle_world\<lparr>status := (status idle_world)\<lparr>running := True,
      current_state := Some ''Goa'', completed_states := [''Assam''], start_time := Some 7,
      logs := [''[t7] x'']\<rparr>\<rparr>"

definition finished_world :: world where
  "finished_world =
     busy_world\<lparr>status := (status busy_world)\<lparr>running := False, current_state := None\<rparr>\<rparr>"

section \<open>Configuration (render_config.py)\<close>





subsection \<open>Python's int on strings\<close>







subsection \<open>RenderConfigHandler\<close>













subsection \<open>Notions used to state the properties of the configuration\<close>






section \<open>Email extraction (test_email_extraction.py)\<close>

subsection \<open>The regular expressions and re.search\<close>

text \<open>
  The three patterns of \<^verbatim>\<open>extract_email_from_html\<close> are sequences of literal text, of
  greedy repetitions of one character class (\<^verbatim>\<open>*\<close>, \<^verbatim>\<open>+\<close> and \<^verbatim>\<open>{2,}\<close>: at least 0, 1
  and 2 characters) and of word boundaries. A pattern is the list of these items.
\<close>

datatype item = Str string | Rep nat "char \<Rightarrow> bool" | WordB

text \<open>
  The context of a position: the character before it (\<open>None\<close> at the start of the
  string) and the character at it (\<open>None\<close> at the end). A word boundary is a position
  with a word character on exactly one side.
\<close>

definition last_char :: "char option \<Rightarrow> string \<Rightarrow> char option" where
  "last_char prev s = (if s = [] then prev else Some (last s))"

definition first_char :: "string \<Rightarrow> char option" where
  "first_char s = (case s of [] \<Rightarrow> None | c # cs \<Rightarrow> Some c)"

definition is_word_opt :: "char option \<Rightarrow> bool" where
  "is_word_opt c = (case c of None \<Rightarrow> False | Some x \<Rightarrow> is_word x)"

definition word_boundary :: "char option \<Rightarrow> char option \<Rightarrow> bool" where
  "word_boundary before after = (is_word_opt before \<noteq> is_word_opt after)"

text \<open>
  Backtracking over a greedy repetition: the longest run is tried first, then each
  shorter one down to the minimum, and the first length for which the rest of the pattern
  matches is taken.
\<close>

primrec first_down :: "(nat \<Rightarrow> 'a option) \<Rightarrow> nat \<Rightarrow> nat \<Rightarrow> 'a option" where
  "first_down f n 0 = (if 0 < n then None else f 0)"
| "first_down f n (Suc k) =
     (if Suc k < n then None
      else case f (Suc k) of Some r \<Rightarrow> Some r | None \<Rightarrow> first_down f n k)"

text \<open>
  Matching a pattern at a position: \<open>prev\<close> is the character before the position, \<open>s\<close>
  the string from the position on. The result is the text each item matched, item by
  item.
\<close>

fun match_items :: "item list \<Rightarrow> char option \<Rightarrow> string \<Rightarrow> string list option" where
  "match_items [] prev s = Some []"
| "match_items (Str lit # r) prev s =
     (if take (length lit) s = lit
      then map_option ((#) lit) (match_items r (last_char prev lit) (drop (length lit) s))
      else None)"
| "match_items (Rep n p # r) prev s =
     first_down
       (\<lambda>k. map_option ((#) (take k s)) (match_items r (last_char prev (take k s)) (drop k s)))
       n (length (takeWhile p s))"
| "match_items (WordB # r) prev s =
     (if word_boundary prev (first_char s) then map_option ((#) []) (match_items r prev s)
      else None)"

text \<open>
  \<^verbatim>\<open>re.search\<close> tries the positions of the string from left to right, the end included.
  The result is the text before the match and the texts of the items.
\<close>

primrec search_from :: "item list \<Rightarrow> char option \<Rightarrow> string \<Rightarrow> (string \<times> string list) option" where
  "search_from r prev [] = map_option (Pair []) (match_items r prev [])"
| "search_from r prev (c # cs) =
     (case match_items r prev (c # cs) of
        Some segs \<Rightarrow> Some ([], segs)
      | None \<Rightarrow> map_option (\<lambda>(pre, segs). (c # pre, segs)) (search_from r (Some c) cs))"

definition re_search :: "item list \<Rightarrow> string \<Rightarrow> (string \<times> string list) option" where
  "re_search r s = search_from r None s"

text \<open>The text of the items \<open>lo\<close> to \<open>hi - 1\<close> of a match: a group, or the whole match.\<close>

definition match_group :: "nat \<Rightarrow> nat \<Rightarrow> string \<times> string list \<Rightarrow> string" where
  "match_group lo hi m = concat (take (hi - lo) (drop lo (snd m)))"

text \<open>The character classes of the patterns.\<close>

definition not_char :: "char \<Rightarrow> char \<Rightarrow> bool" where
  "not_char x c = (c \<noteq> x)"

definition local_char :: "char \<Rightarrow> bool" where
  "local_char c = (is_alnum_ascii c \<or> c \<in> set ''._%+-'')"

definition domain_char :: "char \<Rightarrow> bool" where
  "domain_char c = (is_alnum_ascii c \<or> c \<in> set ''.-'')"

definition tld_char :: "char \<Rightarrow> bool" where
  "tld_char c = (in_range CHR ''A'' CHR ''Z'' c \<or> c = CHR ''|'' \<or> in_range CHR ''a'' CHR ''z'' c)"

text \<open>
  \<^verbatim>\<open><span[^>]*class="[^"]*ms-2[^"]*"[^>]*>([^<]+@[^<]+)</span>\<close>; the group is the items 9
  to 11.
\<close>

definition span_pattern :: "item list" where
  \<open>span_pattern =
     [Str ''<span'', Rep 0 (not_char CHR ''>''), Str ''class="'', Rep 0 (not_char CHR 0x22),
      Str ''ms-2'', Rep 0 (not_char CHR 0x22), Str ''"'', Rep 0 (not_char CHR ''>''),
      Str ''>'', Rep 1 (not_char CHR ''<''), Str ''@'', Rep 1 (not_char CHR ''<''),
      Str ''</span>'']\<close>

text \<open>\<^verbatim>\<open>href="mailto:([^"]+@[^"]+)"\<close>; the group is the items 1 to 3.\<close>

definition mailto_pattern :: "item list" where
  \<open>mailto_pattern =
     [Str ''href="mailto:'', Rep 1 (not_char CHR 0x22), Str ''@'', Rep 1 (not_char CHR 0x22),
      Str ''"'']\<close>

text \<open>\<^verbatim>\<open>\b[A-Za-z0-9._%+-]+@[A-Za-z0-9.-]+\.[A-Z|a-z]{2,}\b\<close>.\<close>

definition text_pattern :: "item list" where
  "text_pattern =
     [WordB, Rep 1 local_char, Str ''@'', Rep 1 domain_char, Str ''.'', Rep 2 tld_char, WordB]"

subsection \<open>extract_email_from_html\<close>

definition extract_email_from_html :: "string \<Rightarrow> string \<Rightarrow> string" where
  "extract_email_from_html element_html element_text =
     (case re_search span_pattern element_html of
        Some email_span_match \<Rightarrow> strip (match_group 9 12 email_span_match)
      | None \<Rightarrow>
          (case re_search mailto_pattern element_html of
             Some mailto_match \<Rightarrow> strip (match_group 1 4 mailto_match)
           | None \<Rightarrow>
               (case re_search text_pattern element_text of
                  Some email_text_match \<Rightarrow> strip (match_group 0 7 email_text_match)
                | None \<Rightarrow> ''N/A'')))"

subsection \<open>What a match is\<close>

text \<open>
  The texts \<open>segs\<close>, one per item, are a match of the pattern at a position with the
  character \<open>prev\<close> before it and the text \<open>rest\<close> after the match: a literal matches
  itself, a repetition at least its minimum of characters of its class, a word boundary
  the empty text at a boundary.
\<close>

fun parses :: "item list \<Rightarrow> char option \<Rightarrow> string list \<Rightarrow> string \<Rightarrow> bool" where
  "parses [] prev [] rest = True"
| "parses (Str lit # r) prev (g # gs) rest =
     (g = lit \<and> parses r (last_char prev g) gs rest)"
| "parses (Rep n p # r) prev (g # gs) rest =
     (n \<le> length g \<and> list_all p g \<and> parses r (last_char prev g) gs rest)"
| "parses (WordB # r) prev (g # gs) rest =
     (g = [] \<and> word_boundary prev (first_char (concat gs @ rest)) \<and> parses r prev gs rest)"
| "parses _ _ _ _ = False"

text \<open>The pattern matches in \<open>s\<close> right after the text \<open>pre\<close>, with the texts \<open>segs\<close>.\<close>

definition occurs :: "item list \<Rightarrow> string \<Rightarrow> string \<Rightarrow> string list \<Rightarrow> bool" where
  "occurs r s pre segs =
     (\<exists>rest. s = pre @ concat segs @ rest \<and> parses r (last_char None pre) segs rest)"

subsection \<open>The match a search returns\<close>

text \<open>
  The texts \<open>segs\<close> are at least as greedy as the texts \<open>segs'\<close>: at the first item
  where their lengths differ, the one of \<open>segs\<close> is the longer.
\<close>

fun greedier :: "string list \<Rightarrow> string list \<Rightarrow> bool" where
  "greedier (g # gs) (h # hs) =
     (length h < length g \<or> (length h = length g \<and> greedier gs hs))"
| "greedier gs hs = True"

text \<open>
  The first match of a pattern in a string: no match starts further left, and among the
  matches that start where it starts none is greedier.
\<close>

definition first_match :: "item list \<Rightarrow> string \<Rightarrow> string \<Rightarrow> string list \<Rightarrow> bool" where
  "first_match r s pre segs =
     (occurs r s pre segs \<and>
      (\<forall>pre' segs'. occurs r s pre' segs' \<longrightarrow>
         length pre < length pre' \<or> (length pre' = length pre \<and> greedier segs segs')))"

subsection \<open>The three shapes, in words of the markup\<close>

text \<open>
  \<open>inner\<close> is the inner text of a marker match of the markup: the text \<^verbatim>\<open><span\<close>, any
  characters other than \<^verbatim>\<open>>\<close>, the text \<^verbatim>\<open>class="\<close>, any characters other than the double
  quote, the text \<^verbatim>\<open>ms-2\<close>, any characters other than the double quote, a double quote,
  any characters other than \<^verbatim>\<open>>\<close>, a \<^verbatim>\<open>>\<close>, then the inner text, free of \<^verbatim>\<open><\<close> and with
  an \<^verbatim>\<open>@\<close> that is neither its first nor its last character, then the text
  \<^verbatim>\<open></span>\<close>. The shape is one of text, not of elements: the name of the tag need only
  begin with \<^verbatim>\<open>span\<close>, the text \<^verbatim>\<open>class="\<close> may end the name of another attribute, and
  single quotes do not count as quotes. Nothing is asked of what surrounds the match.
\<close>

definition marker_match :: "string \<Rightarrow> string \<Rightarrow> bool" where
  \<open>marker_match html inner =
     (\<exists>pre a b c d e f post.
        html = pre @ ''<span'' @ a @ ''class="'' @ b @ ''ms-2'' @ c @ ''"'' @ d @ ''>''
                 @ inner @ ''</span>'' @ post \<and>
        CHR ''>'' \<notin> set a \<and> CHR 0x22 \<notin> set b \<and> CHR 0x22 \<notin> set c \<and> CHR ''>'' \<notin> set d \<and>
        inner = e @ ''@'' @ f \<and> e \<noteq> [] \<and> f \<noteq> [] \<and> CHR ''<'' \<notin> set e \<and> CHR ''<'' \<notin> set f)\<close>



text \<open>
  The inner text of the first marker match of the markup, the address of its first mail
  link, and the first email-shaped part of the text.
\<close>

definition first_marker_inner :: "string \<Rightarrow> string \<Rightarrow> bool" where
  "first_marker_inner html inner =
     (\<exists>pre segs. first_match span_pattern html pre segs \<and> inner = match_group 9 12 (pre, segs))"



subsection \<open>Concrete markup\<close>




definition mailto_html :: string where
  \<open>mailto_html = ''<a href="mailto:school.contact@education.gov.in">Contact Email</a>''\<close>





text \<open>
  A marker match with no anchor around it; a marker match in a tag that is no \<^verbatim>\<open>span\<close> tag
  and has no class attribute; a \<^verbatim>\<open>span\<close> tag whose class attribute, in single quotes, is no
  marker match.
\<close>

definition bare_span :: string where
  \<open>bare_span = ''<span class="ms-2">test@example.com</span>''\<close>

definition spanner_html :: string where
  \<open>spanner_html = ''<spanner data-class="xms-20">a@b</span>''\<close>

definition single_quote_html :: string where
  \<open>single_quote_html = ''<span class='' @ [CHR 0x27] @ ''ms-2'' @ [CHR 0x27] @ ''>a@b</span>''\<close>

section \<open>Properties of the status, the log and the run (app.py)\<close>

subsection \<open>What add_log changes\<close>

lemma status_add_log:
  "status (add_log e m w) =
     (status w)\<lparr>logs := last_n 100 (logs (status w) @ [log_line e (clock_reads w) m])\<rparr>"
  by (simp add: add_log_def log_line_def last_n_def Let_def)

lemma clock_reads_add_log: "clock_reads (add_log e m w) = Suc (clock_reads w)"
  by (simp add: add_log_def Let_def)

lemma running_add_log [simp]: "running (status (add_log e m w)) = running (status w)"
  by (simp add: status_add_log)

lemma current_state_add_log [simp]:
  "current_state (status (add_log e m w)) = current_state (status w)"
  by (simp add: status_add_log)

lemma completed_add_log [simp]:
  "completed_states (status (add_log e m w)) = completed_states (status w)"
  by (simp add: status_add_log)

lemma failed_add_log [simp]:
  "failed_states (status (add_log e m w)) = failed_states (status w)"
  by (simp add: status_add_log)

lemma start_time_add_log [simp]: "start_time (status (add_log e m w)) = start_time (status w)"
  by (simp add: status_add_log)

lemma last_n_length: "length (last_n n xs) \<le> n"
  by (simp add: last_n_def)

lemma last_n_id: "length xs \<le> n \<Longrightarrow> last_n n xs = xs"
  by (simp add: last_n_def)

lemma last_n_append_last_n: "last_n n (last_n n xs @ ys) = last_n n (xs @ ys)"
proof -
  have "length xs + length ys - (length xs - n + n) + (length xs - n)
        = length xs + length ys - n"
    by arith
  then show ?thesis by (simp add: last_n_def)
qed

lemma last_last_n_snoc: "last (last_n 100 (xs @ [y])) = y \<and> last_n 100 (xs @ [y]) \<noteq> []"
  by (simp add: last_n_def)

lemma add_logs_logs:
  "logs (status (add_logs e ms w)) =
     (if ms = [] then logs (status w)
      else last_n 100 (logs (status w) @ log_lines e (clock_reads w) ms))"
proof (induction ms arbitrary: w)
  case Nil
  show ?case by simp
next
  case (Cons m ms)
  show ?case
    by (simp add: Cons.IH status_add_log clock_reads_add_log last_n_append_last_n last_n_length)
qed

text \<open>
  C8. The log is a buffer of capacity 100: a log of at most 100 entries still has at most
  100 entries after any sequence of \<^verbatim>\<open>add_log\<close> calls, and it then holds exactly the last
  100 of the old entries followed by the new ones, the oldest being dropped.
\<close>

theorem log_ring_buffer:
  assumes "length (logs (status w)) \<le> 100"
  shows "length (logs (status (add_logs e ms w))) \<le> 100 \<and>
         logs (status (add_logs e ms w)) =
           last_n 100 (logs (status w) @ log_lines e (clock_reads w) ms)"
  using assms by (cases "ms = []") (simp_all add: add_logs_logs last_n_length last_n_id)

theorem log_ring_buffer_witness:
  "length (logs (status full_world)) \<le> 100 \<and>
   length (logs (status (add_logs demo_env [''a'', ''b''] full_world))) \<le> 100 \<and>
   logs (status (add_logs demo_env [''a'', ''b''] full_world)) =
     replicate 98 ''old'' @ [''[noon] a'', ''[later] b'']"
proof -
  have h: "length (logs (status full_world)) \<le> 100"
    by (simp add: full_world_def idle_world_def)
  have "last_n 100 (logs (status full_world)
          @ log_lines demo_env (clock_reads full_world) [''a'', ''b''])
        = replicate 98 ''old'' @ [''[noon] a'', ''[later] b'']"
    by (simp add: full_world_def idle_world_def last_n_def log_line_def demo_env_def)
  with h log_ring_buffer [OF h, of demo_env "[''a'', ''b'']"] show ?thesis by simp
qed

subsection \<open>start and stop\<close>

text \<open>
  C2. A start request that finds the run flag set is answered with the already-running
  error (status 400) and changes nothing: the status dictionary is the same, and no
  thread is started.
\<close>

theorem start_while_running_rejected:
  "running (status w) \<Longrightarrow>
     start_scraper target_states w = (Error 400 ''Scraper is already running'', w)"
  by (simp add: start_scraper_def)

theorem start_while_running_rejected_witness:
  "running (status busy_world) \<and>
   start_scraper (Some [''Goa'']) busy_world =
     (Error 400 ''Scraper is already running'', busy_world)"
  using start_while_running_rejected [of busy_world "Some [''Goa'']"]
  by (simp add: busy_world_def idle_world_def)

text \<open>
  C4, as stated: a stop request that finds no run in progress leaves every field of the
  status unchanged, the log included. It does not: on the dictionary as the module creates
  it, the request appends its line to the log.
\<close>

theorem stop_when_idle_changes_log:
  "\<not> running (status idle_world) \<and>
   logs (status (snd (stop_scraper demo_env idle_world))) \<noteq> logs (status idle_world)"
  by (simp add: stop_scraper_def idle_world_def status_add_log last_n_def)

text \<open>
  C4, amended. A stop request that finds no run in progress leaves every field of the
  status but the log unchanged, and appends its one line to the log (which keeps its last
  100 entries). After any stop request the run flag is unset, and a second request changes
  nothing but the log again.
\<close>

theorem stop_frame:
  "(\<not> running (status w) \<longrightarrow>
      status (snd (stop_scraper e w)) =
        (status w)\<lparr>logs := last_n 100 (logs (status w)
           @ [log_line e (clock_reads w) (emoji_stop @ '' Scraper stop requested'')])\<rparr>) \<and>
   \<not> running (status (snd (stop_scraper e w))) \<and>
   (status (snd (stop_scraper e (snd (stop_scraper e w)))))\<lparr>logs := []\<rparr> =
     (status (snd (stop_scraper e w)))\<lparr>logs := []\<rparr>"
  by (simp add: stop_scraper_def status_add_log)

theorem stop_frame_witness:
  "\<not> running (status idle_world) \<and>
   status (snd (stop_scraper demo_env idle_world)) =
     (status idle_world)\<lparr>logs := [''[noon] '' @ emoji_stop @ '' Scraper stop requested'']\<rparr>"
proof -
  have h: "\<not> running (status idle_world)"
    by (simp add: idle_world_def)
  have "last_n 100 (logs (status idle_world) @ [log_line demo_env (clock_reads idle_world) m])
        = [''[noon] '' @ m]" for m
    by (simp add: idle_world_def last_n_def log_line_def demo_env_def)
  with h stop_frame [of idle_world demo_env] show ?thesis by simp
qed

subsection \<open>Stop requests served during a run\<close>

lemma stop_requests_0 [simp]: "stop_requests e 0 w = w"
  by (simp add: stop_requests_def)

lemma stop_requests_Suc:
  "stop_requests e (Suc n) w = snd (stop_scraper e (stop_requests e n w))"
  by (simp add: stop_requests_def)

lemma running_stop_requests [simp]:
  "running (status (stop_requests e n w)) = (running (status w) \<and> n = 0)"
  by (induction n) (simp_all add: stop_requests_Suc stop_scraper_def)

lemma completed_stop_requests [simp]:
  "completed_states (status (stop_requests e n w)) = completed_states (status w)"
  by (induction n) (simp_all add: stop_requests_Suc stop_scraper_def)

lemma failed_stop_requests [simp]:
  "failed_states (status (stop_requests e n w)) = failed_states (status w)"
  by (induction n) (simp_all add: stop_requests_Suc stop_scraper_def)

lemma start_time_stop_requests [simp]:
  "start_time (status (stop_requests e n w)) = start_time (status w)"
  by (induction n) (simp_all add: stop_requests_Suc stop_scraper_def)

lemma clock_reads_stop_requests [simp]:
  "clock_reads (stop_requests e n w) = clock_reads w + n"
  by (induction n) (simp_all add: stop_requests_Suc stop_scraper_def clock_reads_add_log)

subsection \<open>One region, then the loop\<close>

lemma completed_visit_state:
  "completed_states (status (fst (visit_state e i r w))) =
     completed_states (status w)
       @ (if process_complete_state e i r = Returned True then [r] else [])"
  by (simp add: visit_state_def Let_def split: outcome.split sum.split)

lemma failed_visit_state:
  "failed_states (status (fst (visit_state e i r w))) =
     failed_states (status w)
       @ (if handled_failure (process_complete_state e i r) then [r] else [])"
  by (simp add: visit_state_def Let_def handled_failure_def split: outcome.split sum.split)

lemma running_visit_state:
  "running (status (fst (visit_state e i r w))) = (running (status w) \<and> stops_during e i = 0)"
  by (simp add: visit_state_def Let_def split: outcome.split sum.split)

lemma start_time_visit_state:
  "start_time (status (fst (visit_state e i r w))) = start_time (status w)"
  by (simp add: visit_state_def Let_def split: outcome.split sum.split)

lemma snd_visit_state: "snd (visit_state e i r w) = escaping (process_complete_state e i r)"
  by (simp add: visit_state_def Let_def escaping_def split: outcome.split sum.split)

lemma lists_visit_state:
  "set (completed_states (status (fst (visit_state e i r w)))) \<union>
   set (failed_states (status (fst (visit_state e i r w))))
   \<subseteq> set (completed_states (status w)) \<union> set (failed_states (status w)) \<union> {r}"
  by (auto simp: completed_visit_state failed_visit_state split: if_splits)

lemma process_states_Cons:
  "running (status w) \<Longrightarrow>
   process_states e i (r # rs) w =
     (case escaping (process_complete_state e i r) of
        None \<Rightarrow> process_states e (Suc i) rs (fst (visit_state e i r w))
      | Some x \<Rightarrow> (fst (visit_state e i r w), Some x))"
  using snd_visit_state [of e i r w]
  by (cases "visit_state e i r w") (auto split: option.splits)

lemma process_states_stopped:
  "\<not> running (status w) \<Longrightarrow> process_states e i rs w = (w, None)"
  by (cases rs) simp_all

declare process_states.simps(2) [simp del]

lemma start_time_process_states:
  "start_time (status (fst (process_states e i rs w))) = start_time (status w)"
proof (induction rs arbitrary: i w)
  case Nil
  show ?case by simp
next
  case (Cons r rs)
  show ?case
  proof (cases "running (status w)")
    case False
    then show ?thesis by (simp add: process_states_stopped)
  next
    case True
    then show ?thesis
      by (simp add: process_states_Cons Cons.IH start_time_visit_state split: option.split)
  qed
qed

lemma lists_process_states:
  "set (completed_states (status (fst (process_states e i rs w)))) \<union>
   set (failed_states (status (fst (process_states e i rs w))))
   \<subseteq> set (completed_states (status w)) \<union> set (failed_states (status w)) \<union> set rs"
proof (induction rs arbitrary: i w)
  case Nil
  show ?case by simp
next
  case (Cons r rs)
  note step = lists_visit_state [of e i r w]
  show ?case
  proof (cases "running (status w)")
    case False
    then show ?thesis by (auto simp: process_states_stopped)
  next
    case True
    show ?thesis
    proof (cases "escaping (process_complete_state e i r)")
      case None
      with True Cons.IH [of "Suc i" "fst (visit_state e i r w)"] step show ?thesis
        by (auto simp: process_states_Cons)
    next
      case (Some x)
      with True step show ?thesis
        by (auto simp: process_states_Cons)
    qed
  qed
qed

lemma lists_after_stop:
  "j < length rs \<Longrightarrow> 0 < stops_during e (i + j) \<Longrightarrow>
   set (completed_states (status (fst (process_states e i rs w)))) \<union>
   set (failed_states (status (fst (process_states e i rs w))))
   \<subseteq> set (completed_states (status w)) \<union> set (failed_states (status w))
       \<union> set (take (Suc j) rs)"
proof (induction rs arbitrary: i j w)
  case Nil
  then show ?case by simp
next
  case (Cons r rs)
  let ?v = "fst (visit_state e i r w)"
  note step = lists_visit_state [of e i r w]
  show ?case
  proof (cases "running (status w)")
    case False
    then show ?thesis by (auto simp: process_states_stopped)
  next
    case True
    show ?thesis
    proof (cases "escaping (process_complete_state e i r)")
      case (Some x)
      with True step show ?thesis
        by (auto simp: process_states_Cons)
    next
      case None
      show ?thesis
      proof (cases j)
        case 0
        with Cons.prems have "\<not> running (status ?v)"
          by (simp add: running_visit_state)
        then have "process_states e (Suc i) rs ?v = (?v, None)"
          by (rule process_states_stopped)
        with True None step 0 show ?thesis
          by (auto simp: process_states_Cons)
      next
        case (Suc j')
        with Cons.prems have "j' < length rs" "0 < stops_during e (Suc i + j')"
          by simp_all
        from Cons.IH [OF this, of ?v] step True None Suc show ?thesis
          by (auto simp: process_states_Cons)
      qed
    qed
  qed
qed

lemma select_states_append:
  "select_states p e i (xs @ ys) = select_states p e i xs @ select_states p e (i + length xs) ys"
  by (induction xs arbitrary: i) simp_all


lemma process_states_escape:
  "\<forall>k. stops_during e k = 0 \<Longrightarrow> running (status w) \<Longrightarrow> calm_run e i before \<Longrightarrow>
   escaping (process_complete_state e (i + length before) r) = Some x \<Longrightarrow>
   snd (process_states e i (before @ r # after) w) = Some x \<and>
   completed_states (status (fst (process_states e i (before @ r # after) w))) =
     completed_states (status w) @ select_states (\<lambda>out. out = Returned True) e i before \<and>
   failed_states (status (fst (process_states e i (before @ r # after) w))) =
     failed_states (status w) @ select_states handled_failure e i (before @ [r])"
proof (induction before arbitrary: i w)
  case Nil
  then have "process_complete_state e i r \<noteq> Returned True"
    by (auto simp: escaping_def)
  with Nil show ?case
    by (simp add: process_states_Cons completed_visit_state failed_visit_state)
next
  case (Cons b before)
  from Cons.prems have v: "running (status (fst (visit_state e i b w)))"
    and c: "escaping (process_complete_state e i b) = None" "calm_run e (Suc i) before"
    and x: "escaping (process_complete_state e (Suc i + length before) r) = Some x"
    by (simp_all add: running_visit_state)
  from Cons.IH [OF Cons.prems(1) v c(2) x] Cons.prems(2) c(1) show ?case
    by (simp add: process_states_Cons completed_visit_state failed_visit_state)
qed




text \<open>
  C5. The stop signal is looked at before each region. When the loop finds the run flag
  unset it ends there and changes nothing more. So when a stop request is served while
  the region at position \<open>j\<close> of the list is processed, the completed and failed lists
  of the finished loop hold, besides what they held before the loop, only regions among
  the first \<open>j + 1\<close> of the list, the ones visited before the signal was seen.
\<close>

theorem stop_at_region_boundary:
  "(\<not> running (status w) \<longrightarrow> process_states e i rs w = (w, None)) \<and>
   (j < length rs \<and> 0 < stops_during e (i + j) \<longrightarrow>
      set (completed_states (status (fst (process_states e i rs w)))) \<union>
      set (failed_states (status (fst (process_states e i rs w))))
      \<subseteq> set (completed_states (status w)) \<union> set (failed_states (status w))
          \<union> set (take (Suc j) rs))"
  using process_states_stopped [of w e i rs] lists_after_stop [of j rs e i w] by blast

theorem stop_at_region_boundary_witness:
  "1 < length demo_states \<and> 0 < stops_during stopping_env (0 + 1) \<and>
   set (completed_states (status (fst (process_states stopping_env 0 demo_states busy_world)))) \<union>
   set (failed_states (status (fst (process_states stopping_env 0 demo_states busy_world))))
   \<subseteq> {''Assam'', ''Goa'', ''Kerala''} \<and>
   \<not> running (status idle_world) \<and>
   process_states stopping_env 0 demo_states idle_world = (idle_world, None)"
proof -
  have h1: "1 < length demo_states"
    by (simp add: demo_states_def)
  have h2: "0 < stops_during stopping_env (0 + 1)"
    by (simp add: stopping_env_def)
  have h3: "\<not> running (status idle_world)"
    by (simp add: idle_world_def)
  have b: "set (completed_states (status busy_world)) \<union> set (failed_states (status busy_world))
             \<union> set (take (Suc 1) demo_states) = {''Assam'', ''Goa'', ''Kerala''}"
    by (auto simp: busy_world_def idle_world_def demo_states_def)
  from stop_at_region_boundary [of idle_world stopping_env 0 demo_states 0] h3
  have a: "process_states stopping_env 0 demo_states idle_world = (idle_world, None)"
    by simp
  from stop_at_region_boundary [of busy_world stopping_env 0 demo_states 1] h1 h2 b
  have "set (completed_states (status (fst (process_states stopping_env 0 demo_states busy_world)))) \<union>
   set (failed_states (status (fst (process_states stopping_env 0 demo_states busy_world))))
   \<subseteq> {''Assam'', ''Goa'', ''Kerala''}"
    by simp
  with h1 h2 h3 a show ?thesis by simp
qed

subsection \<open>The whole task\<close>

lemma start_time_process_statesD:
  "process_states e i rs w = (w', exc) \<Longrightarrow> start_time (status w') = start_time (status w)"
  using start_time_process_states [of e i rs w] by simp

lemma start_time_run_body:
  "start_time (status (fst (run_body e ts w))) = Some (clock e (clock_reads w))"
  by (auto simp: run_body_def Let_def split: sum.splits prod.splits option.splits
      dest!: start_time_process_statesD)

lemma run_body_raise_before_loop:
  assumes "new_processor e = Inl x \<or>
           (new_processor e = Inr p \<and> (ts = None \<or> ts = Some []) \<and> states_list p = Inl x)"
  shows "snd (run_body e ts w) = Some x"
    and "completed_states (status (fst (run_body e ts w))) = completed_states (status w)"
    and "failed_states (status (fst (run_body e ts w))) = failed_states (status w)"
  using assms by (auto simp: run_body_def Let_def)

lemma run_body_regions:
  assumes "new_processor e = Inr p" and "regions_of ts p rs"
  shows "\<exists>w4. running (status w4) = (stops_during_init e = 0) \<and>
           completed_states (status w4) = completed_states (status w) \<and>
           failed_states (status w4) = failed_states (status w) \<and>
           snd (run_body e ts w) = snd (process_states e 0 rs w4) \<and>
           completed_states (status (fst (run_body e ts w))) =
             completed_states (status (fst (process_states e 0 rs w4))) \<and>
           failed_states (status (fst (run_body e ts w))) =
             failed_states (status (fst (process_states e 0 rs w4)))"
proof (cases "case ts of Some (t # rest) \<Rightarrow> True | _ \<Rightarrow> False")
  case True
  then obtain t ts' where ts: "ts = Some (t # ts')"
    by (auto split: option.splits list.splits)
  with assms have rs: "rs = t # ts'"
    by (simp add: regions_of_def)
  let ?w3 = "stop_requests e (stops_during_init e)
               (add_log e (emoji_rocket @ '' Starting school data scraper...'')
                  (w\<lparr>status := (status w)\<lparr>running := True,
                         start_time := Some (clock e (clock_reads w))\<rparr>,
                     clock_reads := Suc (clock_reads w)\<rparr>))"
  let ?w4 = "add_log e (emoji_clipboard @ '' Processing '' @ str_nat (length rs)
                        @ '' selected states'')
               (?w3\<lparr>status := (status ?w3)\<lparr>total_states := length rs\<rparr>\<rparr>)"
  from assms(1) ts rs show ?thesis
    by (intro exI [of _ ?w4])
      (simp add: run_body_def Let_def split: prod.split option.split)
next
  case False
  with assms have rs: "states_list p = Inr rs" and ts: "ts = None \<or> ts = Some []"
    by (auto simp: regions_of_def split: option.splits list.splits)
  let ?w3 = "stop_requests e (stops_during_init e)
               (add_log e (emoji_rocket @ '' Starting school data scraper...'')
                  (w\<lparr>status := (status w)\<lparr>running := True,
                         start_time := Some (clock e (clock_reads w))\<rparr>,
                     clock_reads := Suc (clock_reads w)\<rparr>))"
  let ?w4 = "add_log e (emoji_clipboard @ '' Processing all '' @ str_nat (length rs)
                        @ '' states'')
               (?w3\<lparr>status := (status ?w3)\<lparr>total_states := length rs\<rparr>\<rparr>)"
  from assms(1) ts rs show ?thesis
    by (intro exI [of _ ?w4])
      (auto simp: run_body_def Let_def split: prod.split option.split)
qed

lemma run_body_escape:
  assumes "new_processor e = Inr p" and "regions_of ts p (before @ r # after)"
    and "stops_during_init e = 0" and "\<forall>k. stops_during e k = 0"
    and "calm_run e 0 before"
    and "escaping (process_complete_state e (length before) r) = Some x"
  shows "snd (run_body e ts w) = Some x"
    and "completed_states (status (fst (run_body e ts w))) =
           completed_states (status w) @ select_states (\<lambda>out. out = Returned True) e 0 before"
    and "failed_states (status (fst (run_body e ts w))) =
           failed_states (status w) @ select_states handled_failure e 0 (before @ [r])"
proof -
  from run_body_regions [OF assms(1,2), of w] assms(3) obtain w4 where
    w4: "running (status w4)"
      "completed_states (status w4) = completed_states (status w)"
      "failed_states (status w4) = failed_states (status w)"
    and b: "snd (run_body e ts w) = snd (process_states e 0 (before @ r # after) w4)"
      "completed_states (status (fst (run_body e ts w))) =
         completed_states (status (fst (process_states e 0 (before @ r # after) w4)))"
      "failed_states (status (fst (run_body e ts w))) =
         failed_states (status (fst (process_states e 0 (before @ r # after) w4)))"
    by auto
  from assms(6) have "escaping (process_complete_state e (0 + length before) r) = Some x"
    by simp
  note esc = process_states_escape [OF assms(4) w4(1) assms(5) this, of after]
  from esc b w4 show "snd (run_body e ts w) = Some x"
    by simp
  from esc b w4 show "completed_states (status (fst (run_body e ts w))) =
           completed_states (status w) @ select_states (\<lambda>out. out = Returned True) e 0 before"
    by simp
  from esc b w4 show "failed_states (status (fst (run_body e ts w))) =
           failed_states (status w) @ select_states handled_failure e 0 (before @ [r])"
    by simp
qed

lemma run_scraper_task_finally:
  "\<not> running (status (fst (run_scraper_task e ts w)))"
  "current_state (status (fst (run_scraper_task e ts w))) = None"
  "completed_states (status (fst (run_scraper_task e ts w))) =
     completed_states (status (fst (run_body e ts w)))"
  "failed_states (status (fst (run_scraper_task e ts w))) =
     failed_states (status (fst (run_body e ts w)))"
  "start_time (status (fst (run_scraper_task e ts w))) =
     start_time (status (fst (run_body e ts w)))"
  "snd (run_scraper_task e ts w) =
     (case snd (run_body e ts w) of None \<Rightarrow> None | Some x \<Rightarrow> escaping (Raised x))"
  by (simp_all add: run_scraper_task_def Let_def escaping_def
      split: prod.split option.split sum.split)

lemma run_scraper_task_logs:
  "snd (run_body e ts w) = Some x \<Longrightarrow> is_exception x \<Longrightarrow> str_exn x = Inr msg \<Longrightarrow>
   logs (status (fst (run_scraper_task e ts w))) =
     last_n 100 (logs (status (fst (run_body e ts w)))
       @ [log_line e (clock_reads (fst (run_body e ts w)))
            (emoji_cross @ '' Scraper error: '' @ msg)])"
  "snd (run_body e ts w) = Some x \<Longrightarrow> \<not> is_exception x \<or> str_exn x = Inl x' \<Longrightarrow>
   logs (status (fst (run_scraper_task e ts w))) = logs (status (fst (run_body e ts w)))"
  by (auto simp: run_scraper_task_def Let_def status_add_log
      split: prod.splits if_splits sum.splits)

text \<open>
  C7, as stated: an exception that leaves the region loop is caught at the outermost
  boundary and logged. Not every one: the outer handler catches an \<^verbatim>\<open>Exception\<close>, as the
  inner one does. The \<^verbatim>\<open>SystemExit\<close> raised while Kerala is processed leaves the loop and
  then the task, and no line of the log speaks of it.
\<close>

theorem system_exit_leaves_the_task:
  "escaping (process_complete_state exit_env 1 ''Kerala'') = Some (Exn False ''SystemExit'') \<and>
   snd (run_scraper_task exit_env None busy_world) = Some (Exn False ''SystemExit'') \<and>
   \<not> list_ex (\<lambda>line. contains line ''Scraper error'')
        (logs (status (fst (run_scraper_task exit_env None busy_world))))"
  by code_simp

text \<open>
  C7, amended. Every run of the task ends with the run flag unset and the current region
  cleared, and with the completed and failed lists as they were where the body of the
  task ended: unchanged when the constructor of the processor or the reading of its list
  raised, and holding the regions filed so far when an exception left the loop at some
  region (the regions before it by their outcomes, and the region itself among the failed
  ones when its own exception was caught and the rendering of it raised). The exception
  that ended the body is caught and logged, as the last line of the log, when it is an
  \<^verbatim>\<open>Exception\<close> whose text can be rendered; then nothing leaves the task. An exception
  that is no \<^verbatim>\<open>Exception\<close> is neither caught nor logged and leaves the task after the
  \<^verbatim>\<open>finally\<close> clause, and so does what the rendering of a caught exception raises.
\<close>

theorem job_exception_terminal_state:
  "\<not> running (status (fst (run_scraper_task e ts w))) \<and>
   current_state (status (fst (run_scraper_task e ts w))) = None \<and>
   completed_states (status (fst (run_scraper_task e ts w))) =
     completed_states (status (fst (run_body e ts w))) \<and>
   failed_states (status (fst (run_scraper_task e ts w))) =
     failed_states (status (fst (run_body e ts w))) \<and>
   snd (run_scraper_task e ts w) =
     (case snd (run_body e ts w) of None \<Rightarrow> None | Some y \<Rightarrow> escaping (Raised y)) \<and>
   (snd (run_body e ts w) = Some x \<and> is_exception x \<and> str_exn x = Inr msg \<longrightarrow>
      logs (status (fst (run_scraper_task e ts w))) =
        last_n 100 (logs (status (fst (run_body e ts w)))
          @ [log_line e (clock_reads (fst (run_body e ts w)))
               (emoji_cross @ '' Scraper error: '' @ msg)])) \<and>
   (snd (run_body e ts w) = Some x \<and> (\<not> is_exception x \<or> str_exn x = Inl x') \<longrightarrow>
      logs (status (fst (run_scraper_task e ts w))) = logs (status (fst (run_body e ts w)))) \<and>
   (new_processor e = Inl x \<or>
    (new_processor e = Inr p \<and> (ts = None \<or> ts = Some []) \<and> states_list p = Inl x) \<longrightarrow>
      snd (run_body e ts w) = Some x \<and>
      completed_states (status (fst (run_body e ts w))) = completed_states (status w) \<and>
      failed_states (status (fst (run_body e ts w))) = failed_states (status w)) \<and>
   (new_processor e = Inr p \<and> regions_of ts p (before @ r # after) \<and>
    stops_during_init e = 0 \<and> (\<forall>k. stops_during e k = 0) \<and> calm_run e 0 before \<and>
    escaping (process_complete_state e (length before) r) = Some x \<longrightarrow>
      snd (run_body e ts w) = Some x \<and>
      completed_states (status (fst (run_body e ts w))) =
        completed_states (status w)
          @ select_states (\<lambda>out. out = Returned True) e 0 before \<and>
      failed_states (status (fst (run_body e ts w))) =
        failed_states (status w) @ select_states handled_failure e 0 (before @ [r]))"
  using run_scraper_task_finally [of e ts w] run_scraper_task_logs(1) [of e ts w x msg]
    run_scraper_task_logs(2) [of e ts w x x']
    run_body_raise_before_loop [of e x p ts w]
    run_body_escape [of e p ts before r after x w]
  by blast

theorem job_exception_terminal_state_witness:
  "new_processor unprintable_env = Inr \<lparr>states_list = Inr demo_states\<rparr> \<and>
   regions_of None \<lparr>states_list = Inr demo_states\<rparr> ([''Goa''] @ ''Kerala'' # [''Sikkim'']) \<and>
   stops_during_init unprintable_env = 0 \<and> (\<forall>k. stops_during unprintable_env k = 0) \<and>
   calm_run unprintable_env 0 [''Goa''] \<and>
   escaping (process_complete_state unprintable_env (length [''Goa'']) ''Kerala'')
     = Some (Exn True ''bad repr'') \<and>
   snd (run_body unprintable_env None busy_world) = Some (Exn True ''bad repr'') \<and>
   is_exception (Exn True ''bad repr'') \<and> str_exn (Exn True ''bad repr'') = Inr ''bad repr'' \<and>
   \<not> running (status (fst (run_scraper_task unprintable_env None busy_world))) \<and>
   current_state (status (fst (run_scraper_task unprintable_env None busy_world))) = None \<and>
   completed_states (status (fst (run_scraper_task unprintable_env None busy_world)))
     = [''Assam'', ''Goa''] \<and>
   failed_states (status (fst (run_scraper_task unprintable_env None busy_world)))
     = [''Kerala''] \<and>
   snd (run_scraper_task unprintable_env None busy_world) = None \<and>
   last (logs (status (fst (run_scraper_task unprintable_env None busy_world))))
     = ''[later] '' @ emoji_cross @ '' Scraper error: bad repr'' \<and>
   new_processor broken_env = Inl (Exn True ''no browser'') \<and>
   snd (run_body broken_env None busy_world) = Some (Exn True ''no browser'') \<and>
   completed_states (status (fst (run_scraper_task broken_env None busy_world)))
     = [''Assam''] \<and>
   failed_states (status (fst (run_scraper_task broken_env None busy_world))) = [] \<and>
   snd (run_scraper_task broken_env None busy_world) = None"
proof -
  let ?p = "\<lparr>states_list = Inr demo_states\<rparr>"
  let ?x = "Exn True ''bad repr''"
  have h1: "new_processor unprintable_env = Inr ?p"
    by (simp add: unprintable_env_def demo_env_def demo_states_def)
  have h2: "regions_of None ?p ([''Goa''] @ ''Kerala'' # [''Sikkim''])"
    by (simp add: regions_of_def demo_states_def)
  have h3: "stops_during_init unprintable_env = 0" "\<forall>k. stops_during unprintable_env k = 0"
    by (simp_all add: unprintable_env_def demo_env_def)
  have h4: "calm_run unprintable_env 0 [''Goa'']"
    by (simp add: unprintable_env_def demo_env_def escaping_def)
  have h5: "escaping (process_complete_state unprintable_env (length [''Goa'']) ''Kerala'')
            = Some ?x"
    by (simp add: unprintable_env_def demo_env_def escaping_def)
  have h6: "is_exception ?x" "str_exn ?x = Inr ''bad repr''" "escaping (Raised ?x) = None"
    by (simp_all add: escaping_def)
  have s: "select_states (\<lambda>out. out = Returned True) unprintable_env 0 [''Goa''] = [''Goa'']"
    "select_states handled_failure unprintable_env 0 ([''Goa''] @ [''Kerala'']) = [''Kerala'']"
    by (simp_all add: unprintable_env_def demo_env_def handled_failure_def)
  have b: "completed_states (status busy_world) = [''Assam'']"
    "failed_states (status busy_world) = []"
    by (simp_all add: busy_world_def idle_world_def)
  have l: "last (logs (status (fst (run_scraper_task unprintable_env None busy_world))))
             = ''[later] '' @ emoji_cross @ '' Scraper error: bad repr''"
    by code_simp
  have k1: "new_processor broken_env = Inl (Exn True ''no browser'')"
    by (simp add: broken_env_def)
  have k2: "escaping (Raised (Exn True ''no browser'')) = None"
    by (simp add: escaping_def)
  from job_exception_terminal_state
    [of unprintable_env None busy_world ?x "''bad repr''" _ ?p "[''Goa'']" "''Kerala''"
       "[''Sikkim'']"]
    h1 h2 h3 h4 h5 h6 s b
  have u: "snd (run_body unprintable_env None busy_world) = Some ?x"
    "\<not> running (status (fst (run_scraper_task unprintable_env None busy_world)))"
    "current_state (status (fst (run_scraper_task unprintable_env None busy_world))) = None"
    "completed_states (status (fst (run_scraper_task unprintable_env None busy_world)))
       = [''Assam'', ''Goa'']"
    "failed_states (status (fst (run_scraper_task unprintable_env None busy_world)))
       = [''Kerala'']"
    "snd (run_scraper_task unprintable_env None busy_world) = None"
    by simp_all
  from job_exception_terminal_state
    [of broken_env None busy_world "Exn True ''no browser''"] k1 k2 b
  have v: "snd (run_body broken_env None busy_world) = Some (Exn True ''no browser'')"
    "completed_states (status (fst (run_scraper_task broken_env None busy_world)))
       = [''Assam'']"
    "failed_states (status (fst (run_scraper_task broken_env None busy_world))) = []"
    "snd (run_scraper_task broken_env None busy_world) = None"
    by simp_all
  show ?thesis
    by (intro conjI) (rule h1 h2 h3 h4 h5 h6 u v l k1)+
qed

text \<open>
  C10. The reset of an accepted start request gives every key of the status a fresh value
  but \<^verbatim>\<open>start_time\<close>, which keeps the value of the run before (or \<open>None\<close>). The task
  assigns it, from the clock reading it takes first; stop requests and log lines leave it
  alone. So the status between the request and the first step of the task shows the old
  start time beside the emptied lists.
\<close>

theorem start_keeps_stale_start_time:
  "(\<not> running (status w) \<longrightarrow>
      status (snd (start_scraper ts w)) =
        \<lparr>running = True, current_state = None, progress = 0, total_states = 0,
         completed_states = [], failed_states = [], start_time = start_time (status w),
         logs = []\<rparr>) \<and>
   start_time (status (fst (run_body e ts' v))) = Some (clock e (clock_reads v)) \<and>
   start_time (status (fst (run_scraper_task e ts' v))) = Some (clock e (clock_reads v)) \<and>
   start_time (status (snd (stop_scraper e v))) = start_time (status v) \<and>
   start_time (status (add_log e m v)) = start_time (status v)"
  by (simp add: run_scraper_task_finally(5) start_time_run_body start_scraper_def
      stop_scraper_def)

theorem start_keeps_stale_start_time_witness:
  "\<not> running (status finished_world) \<and>
   status (snd (start_scraper None finished_world)) =
     \<lparr>running = True, current_state = None, progress = 0, total_states = 0,
      completed_states = [], failed_states = [], start_time = Some 7, logs = []\<rparr>"
proof -
  have h: "\<not> running (status finished_world)"
    by (simp add: finished_world_def)
  have s: "start_time (status finished_world) = Some 7"
    by (simp add: finished_world_def busy_world_def idle_world_def)
  from start_keeps_stale_start_time [of finished_world None] h s show ?thesis
    by simp
qed

section \<open>Properties of the configuration (render_config.py)\<close>














section \<open>Properties of the email extraction (test_email_extraction.py)\<close>

subsection \<open>Backtracking\<close>

lemma first_down_Some:
  "first_down f n k = Some r \<Longrightarrow> \<exists>j. n \<le> j \<and> j \<le> k \<and> f j = Some r"
proof (induction k)
  case 0
  then show ?case by (auto split: if_splits)
next
  case (Suc k)
  show ?case
  proof (cases "f (Suc k)")
    case None
    with Suc.prems have "first_down f n k = Some r"
      by (simp split: if_splits)
    from Suc.IH [OF this] show ?thesis
      by (metis le_Suc_eq)
  next
    case (Some a)
    with Suc.prems have "n \<le> Suc k" "a = r"
      by (simp_all split: if_splits)
    with Some show ?thesis by blast
  qed
qed

lemma first_down_complete:
  "n \<le> j \<Longrightarrow> j \<le> k \<Longrightarrow> f j = Some r \<Longrightarrow> \<exists>r'. first_down f n k = Some r'"
proof (induction k)
  case 0
  then show ?case by simp
next
  case (Suc k)
  show ?case
  proof (cases "j = Suc k")
    case True
    with Suc.prems show ?thesis by simp
  next
    case False
    with Suc.prems have "j \<le> k" by simp
    from Suc.IH [OF Suc.prems(1) this Suc.prems(3)] Suc.prems(1) \<open>j \<le> k\<close> show ?thesis
      by (cases "f (Suc k)") auto
  qed
qed

subsection \<open>Matching at a position\<close>

lemma take_takeWhile_all:
  "k \<le> length (takeWhile p s) \<Longrightarrow> list_all p (take k s) \<and> length (take k s) = k"
proof -
  assume k: "k \<le> length (takeWhile p s)"
  have "take k (takeWhile p s @ dropWhile p s) = take k (takeWhile p s)"
    using k by (simp del: takeWhile_dropWhile_id)
  then have eq: "take k s = take k (takeWhile p s)"
    by simp
  have "list_all p (take k (takeWhile p s))"
    by (metis in_set_takeD list_all_iff set_takeWhileD)
  with eq k show ?thesis by simp
qed

lemma length_takeWhile_prefix:
  "list_all p g \<Longrightarrow> length g \<le> length (takeWhile p (g @ t))"
  by (induction g) simp_all

lemma match_items_sound:
  "match_items r prev s = Some segs \<Longrightarrow> \<exists>rest. s = concat segs @ rest \<and> parses r prev segs rest"
proof (induction r arbitrary: prev s segs)
  case Nil
  then show ?case by simp
next
  case (Cons x r)
  show ?case
  proof (cases x)
    case (Str lit)
    with Cons.prems obtain gs where
      lit: "take (length lit) s = lit" and segs: "segs = lit # gs"
      and m: "match_items r (last_char prev lit) (drop (length lit) s) = Some gs"
      by (auto split: if_splits)
    from Cons.IH [OF m] obtain rest where
      "drop (length lit) s = concat gs @ rest" "parses r (last_char prev lit) gs rest"
      by blast
    moreover from lit have "s = lit @ drop (length lit) s"
      by (metis append_take_drop_id)
    ultimately show ?thesis using Str segs by auto
  next
    case (Rep n p)
    with Cons.prems obtain k where k: "n \<le> k" "k \<le> length (takeWhile p s)"
      and f: "map_option ((#) (take k s))
               (match_items r (last_char prev (take k s)) (drop k s)) = Some segs"
      by (auto dest: first_down_Some)
    then obtain gs where segs: "segs = take k s # gs"
      and m: "match_items r (last_char prev (take k s)) (drop k s) = Some gs"
      by auto
    from Cons.IH [OF m] obtain rest where
      d: "drop k s = concat gs @ rest" and p: "parses r (last_char prev (take k s)) gs rest"
      by blast
    have "concat segs @ rest = take k s @ drop k s"
      using segs d by simp
    then have "s = concat segs @ rest"
      by simp
    moreover from take_takeWhile_all [OF k(2)] k(1) p
    have "parses (x # r) prev segs rest"
      using Rep segs by simp
    ultimately show ?thesis by blast
  next
    case WordB
    with Cons.prems obtain gs where b: "word_boundary prev (first_char s)"
      and segs: "segs = [] # gs" and m: "match_items r prev s = Some gs"
      by (auto split: if_splits)
    from Cons.IH [OF m] obtain rest where "s = concat gs @ rest" "parses r prev gs rest"
      by blast
    with b WordB segs show ?thesis by auto
  qed
qed

lemma match_items_complete:
  "parses r prev segs rest \<Longrightarrow> \<exists>segs'. match_items r prev (concat segs @ rest) = Some segs'"
proof (induction r arbitrary: prev segs)
  case Nil
  then show ?case by simp
next
  case (Cons x r)
  from Cons.prems obtain g gs where segs: "segs = g # gs"
    by (cases x; cases segs) simp_all
  show ?case
  proof (cases x)
    case (Str lit)
    with Cons.prems segs have "g = lit" "parses r (last_char prev lit) gs rest"
      by auto
    with Cons.IH [of "last_char prev lit" gs] Str segs show ?thesis
      by auto
  next
    case (Rep n p)
    with Cons.prems segs have g: "n \<le> length g" "list_all p g"
      and p: "parses r (last_char prev g) gs rest"
      by auto
    from Cons.IH [OF p] obtain gs' where
      "match_items r (last_char prev g) (concat gs @ rest) = Some gs'"
      by blast
    then have "map_option ((#) (take (length g) (g @ concat gs @ rest)))
                 (match_items r (last_char prev (take (length g) (g @ concat gs @ rest)))
                    (drop (length g) (g @ concat gs @ rest))) = Some (g # gs')"
      by simp
    from first_down_complete [where f = "\<lambda>k. map_option ((#) (take k (g @ concat gs @ rest)))
                 (match_items r (last_char prev (take k (g @ concat gs @ rest)))
                    (drop k (g @ concat gs @ rest)))", OF g(1) length_takeWhile_prefix [OF g(2)] this]
    show ?thesis using Rep segs by simp
  next
    case WordB
    with Cons.prems segs have "g = []" "word_boundary prev (first_char (concat gs @ rest))"
      "parses r prev gs rest"
      by auto
    with Cons.IH [of prev gs] WordB segs show ?thesis
      by auto
  qed
qed

subsection \<open>Searching\<close>

lemma last_char_Cons: "last_char prev (c # pre) = last_char (Some c) pre"
  by (simp add: last_char_def)

lemma last_char_Nil [simp]: "last_char prev [] = prev"
  by (simp add: last_char_def)

lemma search_from_sound:
  "search_from r prev s = Some (pre, segs) \<Longrightarrow>
   \<exists>rest. s = pre @ concat segs @ rest \<and> parses r (last_char prev pre) segs rest"
proof (induction s arbitrary: prev pre)
  case Nil
  then have "match_items r prev [] = Some segs" "pre = []"
    by auto
  with match_items_sound [of r prev "[]" segs] show ?case
    by simp
next
  case (Cons c cs)
  show ?case
  proof (cases "match_items r prev (c # cs)")
    case (Some segs')
    with Cons.prems have "pre = []" "segs' = segs"
      by simp_all
    with Some match_items_sound [of r prev "c # cs" segs] show ?thesis
      by simp
  next
    case None
    with Cons.prems obtain pre0 where pre: "pre = c # pre0"
      and s: "search_from r (Some c) cs = Some (pre0, segs)"
      by auto
    from Cons.IH [OF s] pre show ?thesis
      by (auto simp: last_char_Cons)
  qed
qed

lemma search_from_leftmost:
  "search_from r prev s = Some (pre, segs) \<Longrightarrow> s = pre' @ concat segs' @ rest' \<Longrightarrow>
   parses r (last_char prev pre') segs' rest' \<Longrightarrow> length pre \<le> length pre'"
proof (induction s arbitrary: prev pre pre')
  case Nil
  then show ?case by auto
next
  case (Cons c cs)
  show ?case
  proof (cases "match_items r prev (c # cs)")
    case (Some a)
    with Cons.prems(1) show ?thesis by simp
  next
    case None
    with Cons.prems(1) obtain pre0 where pre: "pre = c # pre0"
      and s: "search_from r (Some c) cs = Some (pre0, segs)"
      by auto
    show ?thesis
    proof (cases pre')
      case Nil
      with Cons.prems(2,3) match_items_complete [of r prev segs' rest'] None show ?thesis
        by simp
    next
      case (Cons c' pre1)
      with Cons.prems(2) have "c' = c" "cs = pre1 @ concat segs' @ rest'"
        by simp_all
      with Cons.IH [OF s, of pre1] Cons.prems(3) Cons pre show ?thesis
        by (simp add: last_char_Cons)
    qed
  qed
qed

lemma search_from_complete:
  "s = pre @ concat segs @ rest \<Longrightarrow> parses r (last_char prev pre) segs rest \<Longrightarrow>
   \<exists>m. search_from r prev s = Some m"
proof (induction s arbitrary: prev pre)
  case Nil
  then have "pre = []" "concat segs @ rest = []"
    by simp_all
  with Nil.prems(2) match_items_complete [of r prev segs rest] show ?case
    by auto
next
  case (Cons c cs)
  show ?case
  proof (cases "match_items r prev (c # cs)")
    case (Some a)
    then show ?thesis by simp
  next
    case None
    show ?thesis
    proof (cases pre)
      case Nil
      with Cons.prems match_items_complete [of r prev segs rest] None show ?thesis
        by simp
    next
      case (Cons c' pre1)
      with Cons.prems(1) have "c' = c" "cs = pre1 @ concat segs @ rest"
        by simp_all
      with Cons.IH [of pre1 "Some c"] Cons.prems(2) Cons obtain m where
        "search_from r (Some c) cs = Some m"
        by (auto simp: last_char_Cons)
      with None show ?thesis by simp
    qed
  qed
qed

lemma re_search_Some:
  assumes "re_search r s = Some (pre, segs)"
  shows "occurs r s pre segs"
    and "occurs r s pre' segs' \<Longrightarrow> length pre \<le> length pre'"
  using assms search_from_sound [of r None s pre segs]
    search_from_leftmost [of r None s pre segs pre' segs']
  by (auto simp: re_search_def occurs_def)

lemma re_search_None_iff: "re_search r s = None \<longleftrightarrow> (\<forall>pre segs. \<not> occurs r s pre segs)"
proof
  assume none: "re_search r s = None"
  show "\<forall>pre segs. \<not> occurs r s pre segs"
  proof (intro allI notI)
    fix pre segs
    assume "occurs r s pre segs"
    then obtain rest where "s = pre @ concat segs @ rest"
      "parses r (last_char None pre) segs rest"
      by (auto simp: occurs_def)
    from search_from_complete [OF this] none show False
      by (simp add: re_search_def)
  qed
next
  assume none: "\<forall>pre segs. \<not> occurs r s pre segs"
  show "re_search r s = None"
  proof (cases "re_search r s")
    case None
    then show ?thesis .
  next
    case (Some m)
    with re_search_Some(1) [of r s "fst m" "snd m"] none show ?thesis
      by simp
  qed
qed

subsection \<open>The match a search returns\<close>

lemma first_down_max:
  "first_down f n k = Some r \<Longrightarrow>
   \<exists>j. n \<le> j \<and> j \<le> k \<and> f j = Some r \<and> (\<forall>j'. j < j' \<and> j' \<le> k \<longrightarrow> f j' = None)"
proof (induction k)
  case 0
  then show ?case by (auto split: if_splits)
next
  case (Suc k)
  show ?case
  proof (cases "f (Suc k)")
    case None
    with Suc.prems have "first_down f n k = Some r"
      by (simp split: if_splits)
    from Suc.IH [OF this] obtain j where j: "n \<le> j" "j \<le> k" "f j = Some r"
      "\<forall>j'. j < j' \<and> j' \<le> k \<longrightarrow> f j' = None"
      by blast
    from j(4) None have "\<forall>j'. j < j' \<and> j' \<le> Suc k \<longrightarrow> f j' = None"
      by (metis le_Suc_eq)
    with j(1-3) show ?thesis
      by (metis le_Suc_eq)
  next
    case (Some a)
    with Suc.prems have "n \<le> Suc k" "a = r"
      by (simp_all split: if_splits)
    with Some have "n \<le> Suc k \<and> Suc k \<le> Suc k \<and> f (Suc k) = Some r \<and>
        (\<forall>j'. Suc k < j' \<and> j' \<le> Suc k \<longrightarrow> f j' = None)"
      by auto
    then show ?thesis by blast
  qed
qed

lemma parses_length: "parses r prev segs rest \<Longrightarrow> length segs = length r"
proof (induction r arbitrary: prev segs)
  case Nil
  then show ?case by (cases segs) simp_all
next
  case (Cons x r)
  then show ?case by (cases x; cases segs) auto
qed

lemma match_items_greedy:
  "match_items r prev s = Some segs \<Longrightarrow> parses r prev segs' rest' \<Longrightarrow>
   s = concat segs' @ rest' \<Longrightarrow> greedier segs segs'"
proof (induction r arbitrary: prev s segs segs')
  case Nil
  then show ?case by simp
next
  case (Cons x r)
  from Cons.prems(2) obtain g' gs' where segs': "segs' = g' # gs'"
    by (cases x; cases segs') simp_all
  show ?case
  proof (cases x)
    case (Str lit)
    with Cons.prems(1) obtain gs where segs: "segs = lit # gs"
      and m: "match_items r (last_char prev lit) (drop (length lit) s) = Some gs"
      by (auto split: if_splits)
    from Cons.prems(2) Str segs' have g': "g' = lit" and p: "parses r (last_char prev lit) gs' rest'"
      by auto
    from Cons.prems(3) segs' g' have "drop (length lit) s = concat gs' @ rest'"
      by simp
    from Cons.IH [OF m p this] segs segs' g' show ?thesis
      by simp
  next
    case (Rep n p)
    let ?f = "\<lambda>k. map_option ((#) (take k s))
                 (match_items r (last_char prev (take k s)) (drop k s))"
    from Cons.prems(1) Rep have "first_down ?f n (length (takeWhile p s)) = Some segs"
      by simp
    from first_down_max [OF this] obtain k where k: "n \<le> k" "k \<le> length (takeWhile p s)"
      and f: "?f k = Some segs"
      and mx: "\<forall>j'. k < j' \<and> j' \<le> length (takeWhile p s) \<longrightarrow> ?f j' = None"
      by blast
    from f obtain gs where segs: "segs = take k s # gs"
      and m: "match_items r (last_char prev (take k s)) (drop k s) = Some gs"
      by auto
    from Cons.prems(2) Rep segs' have g': "n \<le> length g'" "list_all p g'"
      and p': "parses r (last_char prev g') gs' rest'"
      by auto
    from Cons.prems(3) segs' have s: "s = g' @ concat gs' @ rest'"
      by simp
    then have tk: "take (length g') s = g'" and dr: "drop (length g') s = concat gs' @ rest'"
      by simp_all
    from length_takeWhile_prefix [OF g'(2), of "concat gs' @ rest'"] s
    have le: "length g' \<le> length (takeWhile p s)"
      by simp
    from match_items_complete [OF p'] tk dr have "?f (length g') \<noteq> None"
      by auto
    with mx le have "length g' \<le> k"
      by (meson not_le_imp_less)
    show ?thesis
    proof (cases "length g' = k")
      case True
      with tk dr m p' have "match_items r (last_char prev g') (concat gs' @ rest') = Some gs"
        by simp
      from Cons.IH [OF this p' refl] True tk segs segs' show ?thesis
        by auto
    next
      case False
      with \<open>length g' \<le> k\<close> have "length g' < k" by simp
      moreover from k(2) have "length (take k s) = k"
        using take_takeWhile_all by blast
      ultimately show ?thesis using segs segs' by simp
    qed
  next
    case WordB
    with Cons.prems(1) obtain gs where segs: "segs = [] # gs"
      and m: "match_items r prev s = Some gs"
      by (auto split: if_splits)
    from Cons.prems(2) WordB segs' have g': "g' = []" and p: "parses r prev gs' rest'"
      by auto
    from Cons.prems(3) segs' g' have "s = concat gs' @ rest'"
      by simp
    from Cons.IH [OF m p this] segs segs' g' show ?thesis
      by simp
  qed
qed

lemma search_from_match:
  "search_from r prev s = Some (pre, segs) \<Longrightarrow>
   \<exists>t. s = pre @ t \<and> match_items r (last_char prev pre) t = Some segs"
proof (induction s arbitrary: prev pre)
  case Nil
  then show ?case by auto
next
  case (Cons c cs)
  show ?case
  proof (cases "match_items r prev (c # cs)")
    case (Some segs')
    with Cons.prems show ?thesis by simp
  next
    case None
    with Cons.prems obtain pre0 where pre: "pre = c # pre0"
      and s: "search_from r (Some c) cs = Some (pre0, segs)"
      by auto
    from Cons.IH [OF s] pre show ?thesis
      by (auto simp: last_char_Cons)
  qed
qed

lemma greedier_antisym:
  "greedier gs hs \<Longrightarrow> greedier hs gs \<Longrightarrow> length gs = length hs \<Longrightarrow>
   concat gs @ t = concat hs @ u \<Longrightarrow> gs = hs"
proof (induction gs hs arbitrary: t u rule: list_induct2')
  case (4 g gs h hs)
  from "4.prems"(1,2) have l: "length g = length h" and a: "greedier gs hs" "greedier hs gs"
    by auto
  from "4.prems"(4) have "g @ (concat gs @ t) = h @ (concat hs @ u)"
    by simp
  with l have "g = h" "concat gs @ t = concat hs @ u"
    by simp_all
  with "4.IH" [OF a] "4.prems"(3) show ?case
    by simp
qed simp_all

lemma re_search_first_match:
  assumes "re_search r s = Some (pre, segs)"
  shows "first_match r s pre segs"
  unfolding first_match_def
proof (intro conjI allI impI)
  from assms show "occurs r s pre segs"
    by (rule re_search_Some(1))
next
  fix pre' segs'
  assume o: "occurs r s pre' segs'"
  from re_search_Some(2) [OF assms o] have le: "length pre \<le> length pre'" .
  show "length pre < length pre' \<or> (length pre' = length pre \<and> greedier segs segs')"
  proof (cases "length pre' = length pre")
    case True
    from assms obtain t where t: "s = pre @ t" "match_items r (last_char None pre) t = Some segs"
      using search_from_match [of r None s pre segs] by (auto simp: re_search_def)
    from o obtain rest' where r: "s = pre' @ concat segs' @ rest'"
      "parses r (last_char None pre') segs' rest'"
      by (auto simp: occurs_def)
    from t(1) r(1) True have "pre' = pre" "t = concat segs' @ rest'"
      by simp_all
    with match_items_greedy [OF t(2), of segs' rest'] r(2) True show ?thesis
      by simp
  next
    case False
    with le show ?thesis by simp
  qed
qed

lemma first_match_unique:
  assumes a: "first_match r s pre segs" and b: "first_match r s pre' segs'"
  shows "pre' = pre \<and> segs' = segs"
proof -
  from a b have oa: "occurs r s pre segs" and ob: "occurs r s pre' segs'"
    by (simp_all add: first_match_def)
  from a ob have 1: "length pre < length pre' \<or> (length pre' = length pre \<and> greedier segs segs')"
    by (simp add: first_match_def)
  from b oa have 2: "length pre' < length pre \<or> (length pre = length pre' \<and> greedier segs' segs)"
    by (simp add: first_match_def)
  from 1 2 have l: "length pre' = length pre" and g: "greedier segs segs'" "greedier segs' segs"
    by auto
  from oa obtain rest where r: "s = pre @ concat segs @ rest"
    "parses r (last_char None pre) segs rest"
    by (auto simp: occurs_def)
  from ob obtain rest' where r': "s = pre' @ concat segs' @ rest'"
    "parses r (last_char None pre') segs' rest'"
    by (auto simp: occurs_def)
  from r(1) r'(1) l have p: "pre' = pre" and c: "concat segs @ rest = concat segs' @ rest'"
    by simp_all
  from parses_length [OF r(2)] parses_length [OF r'(2)] have "length segs = length segs'"
    by simp
  from greedier_antisym [OF g this c] p show ?thesis
    by simp
qed

lemma re_search_iff_first_match:
  "re_search r s = Some (pre, segs) \<longleftrightarrow> first_match r s pre segs"
proof
  assume "re_search r s = Some (pre, segs)"
  then show "first_match r s pre segs"
    by (rule re_search_first_match)
next
  assume f: "first_match r s pre segs"
  then have "occurs r s pre segs"
    by (simp add: first_match_def)
  then obtain m where m: "re_search r s = Some m"
    using re_search_None_iff [of r s] by (cases "re_search r s") auto
  then have "first_match r s (fst m) (snd m)"
    using re_search_first_match [of r s "fst m" "snd m"] by simp
  from first_match_unique [OF f this] m show "re_search r s = Some (pre, segs)"
    by (cases m) simp
qed

subsection \<open>The patterns, item by item\<close>

lemma parses_Nil_iff: "parses [] prev segs rest \<longleftrightarrow> segs = []"
  by (cases segs) simp_all

lemma parses_Str_iff:
  "parses (Str lit # r) prev segs rest \<longleftrightarrow>
     (\<exists>gs. segs = lit # gs \<and> parses r (last_char prev lit) gs rest)"
  by (cases segs) auto

lemma parses_Rep_iff:
  "parses (Rep n p # r) prev segs rest \<longleftrightarrow>
     (\<exists>g gs. segs = g # gs \<and> n \<le> length g \<and> list_all p g \<and> parses r (last_char prev g) gs rest)"
  by (cases segs) auto


lemma list_all_not_char: "list_all (not_char x) s \<longleftrightarrow> x \<notin> set s"
  by (auto simp: list_all_iff not_char_def)

lemma parses_span:
  \<open>parses span_pattern prev segs rest \<longleftrightarrow>
     (\<exists>a b c d e f.
        segs = [''<span'', a, ''class="'', b, ''ms-2'', c, ''"'', d, ''>'', e, ''@'', f, ''</span>''] \<and>
        CHR ''>'' \<notin> set a \<and> CHR 0x22 \<notin> set b \<and> CHR 0x22 \<notin> set c \<and> CHR ''>'' \<notin> set d \<and>
        e \<noteq> [] \<and> f \<noteq> [] \<and> CHR ''<'' \<notin> set e \<and> CHR ''<'' \<notin> set f)\<close>
  unfolding span_pattern_def parses_Str_iff parses_Rep_iff parses_Nil_iff list_all_not_char
  by (auto simp: Suc_le_eq)






lemma occurs_span_marker:
  "occurs span_pattern html pre segs \<Longrightarrow> marker_match html (match_group 9 12 (pre, segs))"
  unfolding occurs_def parses_span marker_match_def match_group_def
  by (elim exE conjE) (simp, blast)

lemma marker_occurs_span:
  "marker_match html inner \<Longrightarrow>
   \<exists>pre segs. occurs span_pattern html pre segs \<and> match_group 9 12 (pre, segs) = inner"
proof -
  assume "marker_match html inner"
  then obtain pre a b c d e f post where
    h: \<open>html = pre @ ''<span'' @ a @ ''class="'' @ b @ ''ms-2'' @ c @ ''"'' @ d @ ''>''
                 @ inner @ ''</span>'' @ post\<close>
    and c: \<open>CHR ''>'' \<notin> set a\<close> \<open>CHR 0x22 \<notin> set b\<close> \<open>CHR 0x22 \<notin> set c\<close> \<open>CHR ''>'' \<notin> set d\<close>
      \<open>inner = e @ ''@'' @ f\<close> \<open>e \<noteq> []\<close> \<open>f \<noteq> []\<close> \<open>CHR ''<'' \<notin> set e\<close> \<open>CHR ''<'' \<notin> set f\<close>
    unfolding marker_match_def by blast
  let ?segs = \<open>[''<span'', a, ''class="'', b, ''ms-2'', c, ''"'', d, ''>'', e, ''@'', f, ''</span>'']\<close>
  from c have "parses span_pattern (last_char None pre) ?segs post"
    unfolding parses_span by blast
  moreover from h c have "html = pre @ concat ?segs @ post"
    by simp
  ultimately have "occurs span_pattern html pre ?segs"
    unfolding occurs_def by blast
  moreover from c have "match_group 9 12 (pre, ?segs) = inner"
    by (simp add: match_group_def)
  ultimately show ?thesis by blast
qed









subsection \<open>The strategies\<close>

lemma span_search_Some:
  "re_search span_pattern html = Some m \<Longrightarrow> marker_match html (match_group 9 12 m)"
  using re_search_Some(1) [of span_pattern html "fst m" "snd m"]
    occurs_span_marker [of html "fst m" "snd m"]
  by simp

lemma span_search_None:
  "re_search span_pattern html = None \<longleftrightarrow> (\<forall>i. \<not> marker_match html i)"
  unfolding re_search_None_iff using occurs_span_marker marker_occurs_span by blast





lemma first_marker_inner_iff:
  "first_marker_inner html inner \<longleftrightarrow>
     (\<exists>m. re_search span_pattern html = Some m \<and> inner = match_group 9 12 m)"
  unfolding first_marker_inner_def by (simp add: re_search_iff_first_match [symmetric])



lemma marker_strategy:
  assumes "marker_match html i"
  shows "\<exists>inner. first_marker_inner html inner \<and>
           (\<forall>inner'. first_marker_inner html inner' \<longrightarrow> inner' = inner) \<and>
           marker_match html inner \<and> extract_email_from_html html flat = strip inner"
proof -
  from assms obtain m where m: "re_search span_pattern html = Some m"
    using span_search_None [of html] by (cases "re_search span_pattern html") auto
  then have "extract_email_from_html html flat = strip (match_group 9 12 m)"
    by (simp add: extract_email_from_html_def)
  moreover from m have "first_marker_inner html (match_group 9 12 m)"
    "\<forall>inner'. first_marker_inner html inner' \<longrightarrow> inner' = match_group 9 12 m"
    by (simp_all add: first_marker_inner_iff)
  ultimately show ?thesis
    using span_search_Some [OF m] by blast
qed




lemma bare_marker_match:
  assumes \<open>e \<noteq> []\<close> \<open>f \<noteq> []\<close> \<open>CHR ''<'' \<notin> set e\<close> \<open>CHR ''<'' \<notin> set f\<close>
  shows \<open>marker_match (pre @ ''<span class="ms-2">'' @ e @ ''@'' @ f @ ''</span>'' @ post)
           (e @ ''@'' @ f)\<close>
  unfolding marker_match_def
  apply (rule exI [of _ pre], rule exI [of _ "'' ''"], rule exI [of _ "[]"],
      rule exI [of _ "[]"], rule exI [of _ "[]"], rule exI [of _ e], rule exI [of _ f],
      rule exI [of _ post])
  using assms by simp



text \<open>
  C6, as stated: strategy 1 gives no value for a marker-class element that no anchor with
  a mail-link target encloses. It does: the markup below holds no anchor and no mail link,
  the first search matches, and the result is the inner text of the element.
\<close>

theorem bare_marker_element_matches:
  \<open>\<not> contains bare_span ''<a'' \<and> \<not> contains bare_span ''mailto:'' \<and>
   re_search span_pattern bare_span =
     Some ([], [''<span'', '' '', ''class="'', [], ''ms-2'', [], ''"'', [], ''>'', ''test'', ''@'',
                ''example.com'', ''</span>'']) \<and>
   extract_email_from_html bare_span [] = ''test@example.com''\<close>
  by code_simp

text \<open>
  C6, amended. Strategy 1 gives a value exactly when the markup holds a marker match: the
  text \<^verbatim>\<open><span\<close>, characters other than \<^verbatim>\<open>>\<close>, the text \<^verbatim>\<open>class="\<close>, characters other than the
  double quote with \<^verbatim>\<open>ms-2\<close> among them, a double quote, characters other than \<^verbatim>\<open>>\<close>, a
  \<^verbatim>\<open>>\<close>, an inner text free of \<^verbatim>\<open><\<close> with an \<^verbatim>\<open>@\<close> inside and not at its ends, and the text
  \<^verbatim>\<open></span>\<close>. The value is then the trimmed inner text of the first marker match of the
  markup, which exists and is the only first one, whatever the markup: no anchor and no
  mail-link target is asked for, and \<^verbatim>\<open><span class="ms-2">\<close>, such an inner text and
  \<^verbatim>\<open></span>\<close> are a marker match after any text and before any text. When the markup holds
  no marker match, the result is what the mail-link search and then the text search give.
\<close>

theorem marker_match_needs_no_anchor:
  \<open>(re_search span_pattern html \<noteq> None \<longleftrightarrow> (\<exists>inner. marker_match html inner)) \<and>
   (marker_match html i \<longrightarrow>
      (\<exists>inner. first_marker_inner html inner \<and>
         (\<forall>inner'. first_marker_inner html inner' \<longrightarrow> inner' = inner) \<and>
         marker_match html inner \<and> extract_email_from_html html flat = strip inner)) \<and>
   (e \<noteq> [] \<and> f \<noteq> [] \<and> CHR ''<'' \<notin> set e \<and> CHR ''<'' \<notin> set f \<longrightarrow>
      marker_match (pre @ ''<span class="ms-2">'' @ e @ ''@'' @ f @ ''</span>'' @ post)
        (e @ ''@'' @ f)) \<and>
   ((\<forall>inner. \<not> marker_match html inner) \<longrightarrow>
      extract_email_from_html html flat =
        (case re_search mailto_pattern html of
           Some m \<Rightarrow> strip (match_group 1 4 m)
         | None \<Rightarrow>
             (case re_search text_pattern flat of
                Some m \<Rightarrow> strip (match_group 0 7 m)
              | None \<Rightarrow> ''N/A'')))\<close>
proof (intro conjI impI)
  show "re_search span_pattern html \<noteq> None \<longleftrightarrow> (\<exists>inner. marker_match html inner)"
    using span_search_None [of html] by simp
next
  assume "marker_match html i"
  then show "\<exists>inner. first_marker_inner html inner \<and>
         (\<forall>inner'. first_marker_inner html inner' \<longrightarrow> inner' = inner) \<and>
         marker_match html inner \<and> extract_email_from_html html flat = strip inner"
    by (rule marker_strategy)
next
  assume \<open>e \<noteq> [] \<and> f \<noteq> [] \<and> CHR ''<'' \<notin> set e \<and> CHR ''<'' \<notin> set f\<close>
  then show \<open>marker_match (pre @ ''<span class="ms-2">'' @ e @ ''@'' @ f @ ''</span>'' @ post)
               (e @ ''@'' @ f)\<close>
    using bare_marker_match [of e f pre post] by blast
next
  assume "\<forall>inner. \<not> marker_match html inner"
  then have "re_search span_pattern html = None"
    by (simp add: span_search_None)
  then show "extract_email_from_html html flat =
        (case re_search mailto_pattern html of
           Some m \<Rightarrow> strip (match_group 1 4 m)
         | None \<Rightarrow>
             (case re_search text_pattern flat of
                Some m \<Rightarrow> strip (match_group 0 7 m)
              | None \<Rightarrow> ''N/A''))"
    by (simp add: extract_email_from_html_def)
qed

theorem marker_match_needs_no_anchor_witness:
  \<open>''test'' \<noteq> [] \<and> ''example.com'' \<noteq> [] \<and> CHR ''<'' \<notin> set ''test'' \<and>
   CHR ''<'' \<notin> set ''example.com'' \<and>
   marker_match bare_span ''test@example.com'' \<and>
   first_marker_inner bare_span ''test@example.com'' \<and>
   extract_email_from_html bare_span [] = ''test@example.com'' \<and>
   marker_match spanner_html ''a@b'' \<and>
   first_marker_inner spanner_html ''a@b'' \<and>
   extract_email_from_html spanner_html [] = ''a@b'' \<and>
   (\<forall>inner. \<not> marker_match single_quote_html inner) \<and>
   extract_email_from_html single_quote_html [] = ''N/A'' \<and>
   (\<forall>inner. \<not> marker_match mailto_html inner) \<and>
   extract_email_from_html mailto_html [] = ''school.contact@education.gov.in''\<close>
proof -
  have h: \<open>''test'' \<noteq> [] \<and> ''example.com'' \<noteq> [] \<and> CHR ''<'' \<notin> set ''test'' \<and>
           CHR ''<'' \<notin> set ''example.com''\<close>
    by simp
  with marker_match_needs_no_anchor
    [of _ _ _ "''test''" "''example.com''" "[]" "[]", THEN conjunct2, THEN conjunct2, THEN conjunct1]
  have b1: "marker_match bare_span ''test@example.com''"
    by (simp add: bare_span_def)
  have \<open>re_search span_pattern bare_span =
     Some ([], [''<span'', '' '', ''class="'', [], ''ms-2'', [], ''"'', [], ''>'', ''test'', ''@'',
                ''example.com'', ''</span>''])\<close>
    by code_simp
  then have b2: "first_marker_inner bare_span ''test@example.com''"
    by (simp add: first_marker_inner_iff match_group_def)
  have t1: "strip ''test@example.com'' = ''test@example.com''"
    by code_simp
  from marker_match_needs_no_anchor
    [of bare_span "''test@example.com''" "[]", THEN conjunct2, THEN conjunct1] b1 b2 t1
  have b3: "extract_email_from_html bare_span [] = ''test@example.com''"
    by auto
  have s2: \<open>re_search span_pattern spanner_html =
     Some ([], [''<span'', ''ner data-'', ''class="'', ''x'', ''ms-2'', ''0'', ''"'', [], ''>'',
                ''a'', ''@'', ''b'', ''</span>''])\<close>
    by code_simp
  from span_search_Some [OF s2] have p1: "marker_match spanner_html ''a@b''"
    by (simp add: match_group_def)
  from s2 have p2: "first_marker_inner spanner_html ''a@b''"
    by (simp add: first_marker_inner_iff match_group_def)
  have t2: "strip ''a@b'' = ''a@b''"
    by code_simp
  from marker_match_needs_no_anchor
    [of spanner_html "''a@b''" "[]", THEN conjunct2, THEN conjunct1] p1 p2 t2
  have p3: "extract_email_from_html spanner_html [] = ''a@b''"
    by auto
  have "re_search span_pattern single_quote_html = None"
    by code_simp
  then have q1: "\<forall>inner. \<not> marker_match single_quote_html inner"
    by (simp add: span_search_None)
  have "(case re_search mailto_pattern single_quote_html of
           Some m \<Rightarrow> strip (match_group 1 4 m)
         | None \<Rightarrow>
             (case re_search text_pattern [] of
                Some m \<Rightarrow> strip (match_group 0 7 m)
              | None \<Rightarrow> ''N/A'')) = ''N/A''"
    by code_simp
  with marker_match_needs_no_anchor
    [of single_quote_html _ "[]", THEN conjunct2, THEN conjunct2, THEN conjunct2] q1
  have q2: "extract_email_from_html single_quote_html [] = ''N/A''"
    by simp
  have "re_search span_pattern mailto_html = None"
    by code_simp
  then have n1: "\<forall>inner. \<not> marker_match mailto_html inner"
    by (simp add: span_search_None)
  have "(case re_search mailto_pattern mailto_html of
           Some m \<Rightarrow> strip (match_group 1 4 m)
         | None \<Rightarrow>
             (case re_search text_pattern [] of
                Some m \<Rightarrow> strip (match_group 0 7 m)
              | None \<Rightarrow> ''N/A'')) = ''school.contact@education.gov.in''"
    by code_simp
  with marker_match_needs_no_anchor
    [of mailto_html _ "[]", THEN conjunct2, THEN conjunct2, THEN conjunct2] n1
  have n2: "extract_email_from_html mailto_html [] = ''school.contact@education.gov.in''"
    by simp
  from h b1 b2 b3 p1 p2 p3 q1 q2 n1 n2 show ?thesis
    by simp
qed

end
